theory Spec2Isabelle
  imports Main "HOL-Library.Sublist"
begin

section \<open>The storage collaborator\<close>

text \<open>
  The module \<^verbatim>\<open>lib/fs-traverse.js\<close> walks a directory tree through three operations of
  Node's \<^verbatim>\<open>fs\<close> module, each in a callback form and in a blocking form: \<^verbatim>\<open>stat\<close>,
  \<^verbatim>\<open>readdir\<close> and \<^verbatim>\<open>readFile\<close>. The walk never writes, so the collaborator is a
  record of three functions from paths to results; a failure is the left injection.

  The reader layer can call \<^verbatim>\<open>fs.readFile\<close> with an undefined path (see
  \<open>readEachFileMatching_handler\<close> below). What the collaborator does then is a fourth
  field: it either raises in the calling callback or reports the error to the read callback.
\<close>

type_synonym path = string
type_synonym content = string

datatype error = IOError path | TypeError

record stat =
  isDirectory :: bool
  stat_size :: nat

datatype undefined_read = Throws error | Reports error

record filesystem =
  fs_stat :: "path \<Rightarrow> error + stat"
  fs_readdir :: "path \<Rightarrow> error + string list"
  fs_readFile :: "path \<Rightarrow> error + content"
  fs_readFile_undefined :: undefined_read

section \<open>Callback arguments\<close>

text \<open>
  A per-entry handler is called as \<^verbatim>\<open>(err)\<close> or as \<^verbatim>\<open>(null, file, stat)\<close>; a completion
  handler as \<^verbatim>\<open>(err)\<close> or as \<^verbatim>\<open>(null, files, stats)\<close>. The reader layer adds the content.
  A handler is a function on the state of the code that supplied it.
\<close>

datatype entry_arg = EntryErr error | Entry path stat
datatype complete_arg = CompleteErr error | Complete "path list" "stat list"
datatype read_arg = ReadErr error | ReadEntry path stat content
datatype read_complete_arg =
  ReadCompleteErr error | ReadComplete "path list" "stat list" "content list"

type_synonym 'u fileHandler = "entry_arg \<Rightarrow> 'u \<Rightarrow> 'u"
type_synonym 'u completeHandler = "complete_arg \<Rightarrow> 'u \<Rightarrow> 'u"

section \<open>Joining a directory and a child name\<close>

text \<open>
  \<^verbatim>\<open>dir.replace(/\/$/, '') + '/' + file\<close>: the pattern matches one slash at the very end
  of the string, and \<^verbatim>\<open>replace\<close> with a non-global pattern rewrites that one match.
\<close>

definition fullFilePath :: "path \<Rightarrow> string \<Rightarrow> path" where
  "fullFilePath dir file =
     (if dir \<noteq> [] \<and> last dir = CHR ''/'' then butlast dir else dir) @ ''/'' @ file"

section \<open>The traversal engine, concurrent mode\<close>

text \<open>
  \<^verbatim>\<open>eachFileOrDirectory\<close> keeps three variables in its closure: \<open>filesToCheck\<close>,
  \<open>checkedFiles\<close> and \<open>checkedStats\<close>. The operations it has issued and whose callbacks
  have not run yet are the \<open>pending\<close> tasks of the event loop. The state of the caller's
  handlers is \<open>upper\<close>: the handlers cannot reach the engine's variables.
\<close>

datatype task = StatTask path | ReaddirTask path

record 'u engine =
  pending :: "task list"
  filesToCheck :: int
  checkedFiles :: "path list"
  checkedStats :: "stat list"
  upper :: 'u

definition checkComplete :: "'u completeHandler \<Rightarrow> 'u engine \<Rightarrow> 'u engine" where
  "checkComplete completeHandler s =
     (if filesToCheck s = 0
      then s\<lparr>upper := completeHandler (Complete (checkedFiles s) (checkedStats s)) (upper s)\<rparr>
      else s)"

text \<open>The part of \<open>onFileOrDirectory_\<close> and of \<open>onDirectory_\<close> that runs at once: count, issue.\<close>

definition onFileOrDirectory :: "path \<Rightarrow> 'u engine \<Rightarrow> 'u engine" where
  "onFileOrDirectory fileOrDirectory s =
     s\<lparr>filesToCheck := filesToCheck s + 1, pending := pending s @ [StatTask fileOrDirectory]\<rparr>"

definition onDirectory :: "path \<Rightarrow> 'u engine \<Rightarrow> 'u engine" where
  "onDirectory dir s =
     s\<lparr>filesToCheck := filesToCheck s + 1, pending := pending s @ [ReaddirTask dir]\<rparr>"

text \<open>The callback given to \<^verbatim>\<open>fs.stat\<close>, run when the result arrives.\<close>

definition stat_callback ::
  "'u fileHandler \<Rightarrow> 'u completeHandler \<Rightarrow> path \<Rightarrow> error + stat \<Rightarrow> 'u engine \<Rightarrow> 'u engine" where
  "stat_callback fileHandler completeHandler fileOrDirectory res s0 =
     (let s = s0\<lparr>filesToCheck := filesToCheck s0 - 1\<rparr> in
      case res of
        Inl err \<Rightarrow> s\<lparr>upper := fileHandler (EntryErr err) (upper s)\<rparr>
      | Inr st \<Rightarrow>
          (let s1 = s\<lparr>checkedFiles := checkedFiles s @ [fileOrDirectory],
                      checkedStats := checkedStats s @ [st]\<rparr>;
               s2 = s1\<lparr>upper := fileHandler (Entry fileOrDirectory st) (upper s1)\<rparr>
           in if isDirectory st then onDirectory fileOrDirectory s2
              else checkComplete completeHandler s2))"

text \<open>The callback given to \<^verbatim>\<open>fs.readdir\<close>.\<close>

definition readdir_callback ::
  "'u fileHandler \<Rightarrow> 'u completeHandler \<Rightarrow> path \<Rightarrow> error + string list \<Rightarrow> 'u engine \<Rightarrow> 'u engine" where
  "readdir_callback fileHandler completeHandler dir res s0 =
     (let s = s0\<lparr>filesToCheck := filesToCheck s0 - 1\<rparr> in
      case res of
        Inl err \<Rightarrow> s\<lparr>upper := fileHandler (EntryErr err) (upper s)\<rparr>
      | Inr files \<Rightarrow>
          checkComplete completeHandler
            (foldl (\<lambda>s' file. onFileOrDirectory (fullFilePath dir file) s') s files))"

text \<open>
  The event loop runs one pending callback at a time, in an order the engine does not
  control. A schedule is a list of positions in \<open>pending\<close>; a position beyond the end is a
  turn of the loop in which no result of this session arrives.
\<close>

fun deliver ::
  "filesystem \<Rightarrow> 'u fileHandler \<Rightarrow> 'u completeHandler \<Rightarrow> task \<Rightarrow> 'u engine \<Rightarrow> 'u engine" where
  "deliver fs fh ch (StatTask p) s = stat_callback fh ch p (fs_stat fs p) s"
| "deliver fs fh ch (ReaddirTask p) s = readdir_callback fh ch p (fs_readdir fs p) s"

definition step ::
  "filesystem \<Rightarrow> 'u fileHandler \<Rightarrow> 'u completeHandler \<Rightarrow> nat \<Rightarrow> 'u engine \<Rightarrow> 'u engine" where
  "step fs fh ch i s =
     (if i < length (pending s)
      then deliver fs fh ch (pending s ! i)
             (s\<lparr>pending := take i (pending s) @ drop (Suc i) (pending s)\<rparr>)
      else s)"

definition run ::
  "filesystem \<Rightarrow> 'u fileHandler \<Rightarrow> 'u completeHandler \<Rightarrow> nat list \<Rightarrow> 'u engine \<Rightarrow> 'u engine" where
  "run fs fh ch sched s = foldl (\<lambda>s' i. step fs fh ch i s') s sched"

text \<open>
  The call itself: \<^verbatim>\<open>directory = (directory) ? directory : './'\<close> (the empty string is
  falsy, as an omitted argument is), then \<^verbatim>\<open>onFileOrDirectory(directory)\<close>.
\<close>

definition eachFileOrDirectory_start :: "path \<Rightarrow> 'u \<Rightarrow> 'u engine" where
  "eachFileOrDirectory_start directory u =
     onFileOrDirectory (if directory = [] then ''./'' else directory)
       \<lparr>pending = [], filesToCheck = 0, checkedFiles = [], checkedStats = [], upper = u\<rparr>"

definition eachFileOrDirectory ::
  "filesystem \<Rightarrow> path \<Rightarrow> 'u fileHandler \<Rightarrow> 'u completeHandler \<Rightarrow> nat list \<Rightarrow> 'u \<Rightarrow> 'u engine" where
  "eachFileOrDirectory fs directory fileHandler completeHandler sched u =
     run fs fileHandler completeHandler sched (eachFileOrDirectory_start directory u)"

section \<open>The pattern\<close>

text \<open>
  The pattern filters use their pattern through \<^verbatim>\<open>expression.test(file)\<close> only. The
  expression is a \<^verbatim>\<open>RegExp\<close> object of the caller: its \<^verbatim>\<open>g\<close> and \<^verbatim>\<open>y\<close> flags, its matcher
  (for a string and an index, the end of the match of the pattern that starts at that index,
  if there is one) and its mutable \<^verbatim>\<open>lastIndex\<close>. \<^verbatim>\<open>test\<close> is the language's
  \<^verbatim>\<open>RegExpBuiltinExec\<close>: without either flag the search starts at index 0 and
  \<^verbatim>\<open>lastIndex\<close> is neither read nor written; with a flag it starts at \<^verbatim>\<open>lastIndex\<close>, which
  becomes the end of the match found, or 0 when none is found. The search tries the indices
  up to the length of the string in turn; with the \<^verbatim>\<open>y\<close> flag it tries the first only.
\<close>

record regexp =
  global :: bool
  sticky :: bool
  match_at :: "string \<Rightarrow> nat \<Rightarrow> nat option"
  lastIndex :: nat

primrec search :: "regexp \<Rightarrow> string \<Rightarrow> nat list \<Rightarrow> nat option" where
  "search R S [] = None"
| "search R S (i # later) =
     (case match_at R S i of
        Some e \<Rightarrow> Some e
      | None \<Rightarrow> if sticky R then None else search R S later)"

definition test :: "regexp \<Rightarrow> string \<Rightarrow> bool \<times> regexp" where
  "test R S =
     (if global R \<or> sticky R
      then (case search R S [lastIndex R ..< Suc (length S)] of
              None \<Rightarrow> (False, R\<lparr>lastIndex := 0\<rparr>)
            | Some e \<Rightarrow> (True, R\<lparr>lastIndex := e\<rparr>))
      else (search R S [0 ..< Suc (length S)] \<noteq> None, R))"

text \<open>
  The pattern that is a fixed word, as in \<^verbatim>\<open>/root/\<close> and \<^verbatim>\<open>/root/g\<close>; the empty word is
  \<^verbatim>\<open>/(?:)/\<close>, which matches every string.
\<close>

definition literal :: "string \<Rightarrow> bool \<Rightarrow> regexp" where
  "literal word g =
     \<lparr>global = g, sticky = False,
      match_at = (\<lambda>S i. if take (length word) (drop i S) = word then Some (i + length word)
                         else None),
      lastIndex = 0\<rparr>"

section \<open>The file filter and the pattern filter, concurrent mode\<close>

text \<open>
  \<^verbatim>\<open>eachFile\<close> and \<^verbatim>\<open>eachFileMatching\<close> each keep two lists, \<open>files\<close> and \<open>stats\<close>
  (\<open>matchedFiles\<close> and \<open>matchedStats\<close> for the latter), and wrap the handlers of their
  caller, whose state is \<open>outer\<close> (\<open>outerMatch\<close>). The closure of \<^verbatim>\<open>eachFileMatching\<close> also
  holds the \<open>expression\<close> it was given; every call of \<^verbatim>\<open>expression.test\<close> leaves the object
  as \<open>test\<close> returns it. The handlers of the caller are not given the expression.
\<close>

record 'u collector =
  files :: "path list"
  stats :: "stat list"
  outer :: 'u

definition eachFile_handler :: "'u fileHandler \<Rightarrow> 'u collector fileHandler" where
  "eachFile_handler callback arg c =
     (case arg of
        EntryErr err \<Rightarrow> c\<lparr>outer := callback (EntryErr err) (outer c)\<rparr>
      | Entry file st \<Rightarrow>
          if \<not> isDirectory st
          then (let c1 = c\<lparr>files := files c @ [file], stats := stats c @ [st]\<rparr>
                in c1\<lparr>outer := callback (Entry file st) (outer c1)\<rparr>)
          else c)"

definition eachFile_complete :: "'u completeHandler \<Rightarrow> 'u collector completeHandler" where
  "eachFile_complete completeHandler arg c =
     (case arg of
        CompleteErr err \<Rightarrow> c\<lparr>outer := completeHandler (CompleteErr err) (outer c)\<rparr>
      | Complete _ _ \<Rightarrow> c\<lparr>outer := completeHandler (Complete (files c) (stats c)) (outer c)\<rparr>)"

definition new_collector :: "'u \<Rightarrow> 'u collector" where
  "new_collector u = \<lparr>files = [], stats = [], outer = u\<rparr>"

definition eachFile ::
  "filesystem \<Rightarrow> path \<Rightarrow> 'u fileHandler \<Rightarrow> 'u completeHandler \<Rightarrow> nat list \<Rightarrow> 'u
     \<Rightarrow> 'u collector engine" where
  "eachFile fs path callback completeHandler sched u =
     eachFileOrDirectory fs path (eachFile_handler callback) (eachFile_complete completeHandler)
       sched (new_collector u)"

record 'u matcher =
  expression :: regexp
  matchedFiles :: "path list"
  matchedStats :: "stat list"
  outerMatch :: 'u

definition eachFileMatching_handler :: "'u fileHandler \<Rightarrow> 'u matcher fileHandler" where
  "eachFileMatching_handler callback arg c =
     (case arg of
        EntryErr err \<Rightarrow> c\<lparr>outerMatch := callback (EntryErr err) (outerMatch c)\<rparr>
      | Entry file st \<Rightarrow>
          (case test (expression c) file of
             (matched, re) \<Rightarrow>
               (let c0 = c\<lparr>expression := re\<rparr> in
                if matched
                then (let c1 = c0\<lparr>matchedFiles := matchedFiles c0 @ [file],
                                  matchedStats := matchedStats c0 @ [st]\<rparr>
                      in c1\<lparr>outerMatch := callback (Entry file st) (outerMatch c1)\<rparr>)
                else c0)))"

definition eachFileMatching_complete :: "'u completeHandler \<Rightarrow> 'u matcher completeHandler" where
  "eachFileMatching_complete completeHandler arg c =
     (case arg of
        CompleteErr err \<Rightarrow> c\<lparr>outerMatch := completeHandler (CompleteErr err) (outerMatch c)\<rparr>
      | Complete _ _ \<Rightarrow>
          c\<lparr>outerMatch := completeHandler (Complete (matchedFiles c) (matchedStats c))
                              (outerMatch c)\<rparr>)"

definition new_matcher :: "regexp \<Rightarrow> 'u \<Rightarrow> 'u matcher" where
  "new_matcher expr u =
     \<lparr>expression = expr, matchedFiles = [], matchedStats = [], outerMatch = u\<rparr>"

definition eachFileMatching ::
  "filesystem \<Rightarrow> regexp \<Rightarrow> path \<Rightarrow> 'u fileHandler \<Rightarrow> 'u completeHandler \<Rightarrow> nat list \<Rightarrow> 'u
     \<Rightarrow> 'u matcher collector engine" where
  "eachFileMatching fs expr path callback completeHandler sched u =
     eachFile fs path (eachFileMatching_handler callback)
       (eachFileMatching_complete completeHandler) sched (new_matcher expr u)"

section \<open>The content reader, concurrent mode\<close>

text \<open>
  \<^verbatim>\<open>readEachFileMatching\<close> keeps \<open>files\<close>, \<open>contents\<close> and \<open>stats\<close>. Its per-entry handler
  takes \<^verbatim>\<open>(err, file, stat)\<close> and calls \<^verbatim>\<open>fs.readFile(file, ...)\<close> whatever \<^verbatim>\<open>err\<close> is: when
  the layer beneath reports an error, \<^verbatim>\<open>file\<close> is undefined. The reads it has issued are
  pending in the same event loop as the engine's operations, and no counter tracks them.
  An exception raised inside a callback is not caught by any layer: it ends the session.
\<close>

datatype read_task = ReadFileTask path stat | ReadFileUndefinedTask

record 'u reader =
  reading :: "read_task list"
  uncaught :: "error option"
  read_files :: "path list"
  read_contents :: "content list"
  read_stats :: "stat list"
  caller :: 'u

type_synonym 'u readHandler = "read_arg \<Rightarrow> 'u \<Rightarrow> 'u"
type_synonym 'u readCompleteHandler = "read_complete_arg \<Rightarrow> 'u \<Rightarrow> 'u"

definition readEachFileMatching_handler :: "filesystem \<Rightarrow> 'u reader fileHandler" where
  "readEachFileMatching_handler fs arg r =
     (case arg of
        EntryErr err \<Rightarrow>
          (case fs_readFile_undefined fs of
             Throws e \<Rightarrow> r\<lparr>uncaught := Some e\<rparr>
           | Reports e \<Rightarrow> r\<lparr>reading := reading r @ [ReadFileUndefinedTask]\<rparr>)
      | Entry file st \<Rightarrow> r\<lparr>reading := reading r @ [ReadFileTask file st]\<rparr>)"

text \<open>The callback given to \<^verbatim>\<open>fs.readFile\<close>.\<close>

definition readFile_callback ::
  "'u readHandler \<Rightarrow> path \<Rightarrow> stat \<Rightarrow> error + content \<Rightarrow> 'u reader \<Rightarrow> 'u reader" where
  "readFile_callback callback file st res r =
     (case res of
        Inl err \<Rightarrow> r\<lparr>caller := callback (ReadErr err) (caller r)\<rparr>
      | Inr content \<Rightarrow>
          (let r1 = r\<lparr>read_files := read_files r @ [file],
                      read_contents := read_contents r @ [content],
                      read_stats := read_stats r @ [st]\<rparr>
           in r1\<lparr>caller := callback (ReadEntry file st content) (caller r1)\<rparr>))"

definition readEachFileMatching_complete ::
  "'u readCompleteHandler \<Rightarrow> 'u reader completeHandler" where
  "readEachFileMatching_complete completeHandler arg r =
     (case arg of
        CompleteErr err \<Rightarrow> r\<lparr>caller := completeHandler (ReadCompleteErr err) (caller r)\<rparr>
      | Complete _ _ \<Rightarrow>
          r\<lparr>caller := completeHandler
                 (ReadComplete (read_files r) (read_stats r) (read_contents r)) (caller r)\<rparr>)"

fun deliver_read :: "filesystem \<Rightarrow> 'u readHandler \<Rightarrow> read_task \<Rightarrow> 'u reader \<Rightarrow> 'u reader" where
  "deliver_read fs callback (ReadFileTask file st) r =
     readFile_callback callback file st (fs_readFile fs file) r"
| "deliver_read fs callback ReadFileUndefinedTask r =
     (case fs_readFile_undefined fs of
        Reports e \<Rightarrow> r\<lparr>caller := callback (ReadErr e) (caller r)\<rparr>
      | Throws e \<Rightarrow> r)"

definition read_step :: "filesystem \<Rightarrow> 'u readHandler \<Rightarrow> nat \<Rightarrow> 'u reader \<Rightarrow> 'u reader" where
  "read_step fs callback i r =
     (if i < length (reading r)
      then deliver_read fs callback (reading r ! i)
             (r\<lparr>reading := take i (reading r) @ drop (Suc i) (reading r)\<rparr>)
      else r)"

text \<open>
  A turn of the event loop in a reader session delivers the result of one operation of the
  engine or of one read.
\<close>

datatype tick = Traverse nat | Read nat

type_synonym 'u read_session = "'u reader matcher collector engine"

definition reader_of :: "'u read_session \<Rightarrow> 'u reader" where
  "reader_of s = outerMatch (outer (upper s))"

definition map_reader :: "('u reader \<Rightarrow> 'u reader) \<Rightarrow> 'u read_session \<Rightarrow> 'u read_session" where
  "map_reader f s =
     s\<lparr>upper := (upper s)\<lparr>outer :=
         (outer (upper s))\<lparr>outerMatch := f (outerMatch (outer (upper s)))\<rparr>\<rparr>\<rparr>"

definition reader_fileHandler :: "filesystem \<Rightarrow> 'u reader matcher collector fileHandler" where
  "reader_fileHandler fs =
     eachFile_handler (eachFileMatching_handler (readEachFileMatching_handler fs))"

definition reader_completeHandler ::
  "'u readCompleteHandler \<Rightarrow> 'u reader matcher collector completeHandler" where
  "reader_completeHandler completeHandler =
     eachFile_complete (eachFileMatching_complete (readEachFileMatching_complete completeHandler))"

definition tick_step ::
  "filesystem \<Rightarrow> 'u readHandler \<Rightarrow> 'u readCompleteHandler \<Rightarrow> tick
     \<Rightarrow> 'u read_session \<Rightarrow> 'u read_session" where
  "tick_step fs callback completeHandler t s =
     (if uncaught (reader_of s) \<noteq> None then s
      else case t of
             Traverse i \<Rightarrow>
               step fs (reader_fileHandler fs) (reader_completeHandler completeHandler) i s
           | Read i \<Rightarrow> map_reader (read_step fs callback i) s)"

definition new_reader :: "'u \<Rightarrow> 'u reader" where
  "new_reader u =
     \<lparr>reading = [], uncaught = None, read_files = [], read_contents = [], read_stats = [],
      caller = u\<rparr>"

definition run_ticks ::
  "filesystem \<Rightarrow> 'u readHandler \<Rightarrow> 'u readCompleteHandler \<Rightarrow> tick list
     \<Rightarrow> 'u read_session \<Rightarrow> 'u read_session" where
  "run_ticks fs callback completeHandler ticks s =
     foldl (\<lambda>s' t. tick_step fs callback completeHandler t s') s ticks"

definition readEachFileMatching ::
  "filesystem \<Rightarrow> regexp \<Rightarrow> path \<Rightarrow> 'u readHandler \<Rightarrow> 'u readCompleteHandler \<Rightarrow> tick list
     \<Rightarrow> 'u \<Rightarrow> 'u read_session" where
  "readEachFileMatching fs expr path callback completeHandler ticks u =
     run_ticks fs callback completeHandler ticks
       (eachFileOrDirectory_start path (new_collector (new_matcher expr (new_reader u))))"

section \<open>Sequential mode\<close>

text \<open>
  The blocking operations return their result or raise. A call either returns or raises,
  each with the state it leaves behind. The recursion of \<open>onFileOrDirectory_\<close> and
  \<open>onDirectory_\<close> follows the directory structure, which need not be finite: \<open>fuel\<close> bounds
  the nesting of directories, and \<open>None\<close> is a call that needed more.
\<close>

datatype 'a outcome = Returned 'a | Threw error 'a

type_synonym 'u syncHandler = "entry_arg \<Rightarrow> 'u \<Rightarrow> 'u outcome"

record 'u sync_engine =
  checkedFilesSync :: "path list"
  checkedStatsSync :: "stat list"
  upperSync :: 'u

fun onFileOrDirectorySync ::
      "filesystem \<Rightarrow> 'u syncHandler \<Rightarrow> nat \<Rightarrow> path \<Rightarrow> 'u sync_engine
         \<Rightarrow> 'u sync_engine outcome option"
  and onDirectorySync ::
      "filesystem \<Rightarrow> 'u syncHandler \<Rightarrow> nat \<Rightarrow> path \<Rightarrow> 'u sync_engine
         \<Rightarrow> 'u sync_engine outcome option"
  and forEachSync ::
      "filesystem \<Rightarrow> 'u syncHandler \<Rightarrow> nat \<Rightarrow> path \<Rightarrow> string list \<Rightarrow> 'u sync_engine
         \<Rightarrow> 'u sync_engine outcome option" where
  "onFileOrDirectorySync fs fileHandler 0 fileOrDirectory s = None"
| "onFileOrDirectorySync fs fileHandler (Suc fuel) fileOrDirectory s =
     (case fs_stat fs fileOrDirectory of
        Inl err \<Rightarrow> Some (Threw err s)
      | Inr st \<Rightarrow>
          (let s1 = s\<lparr>checkedFilesSync := checkedFilesSync s @ [fileOrDirectory],
                      checkedStatsSync := checkedStatsSync s @ [st]\<rparr>
           in case fileHandler (Entry fileOrDirectory st) (upperSync s1) of
                Threw err u \<Rightarrow> Some (Threw err (s1\<lparr>upperSync := u\<rparr>))
              | Returned u \<Rightarrow>
                  if isDirectory st
                  then onDirectorySync fs fileHandler fuel fileOrDirectory (s1\<lparr>upperSync := u\<rparr>)
                  else Some (Returned (s1\<lparr>upperSync := u\<rparr>))))"
| "onDirectorySync fs fileHandler fuel dir s =
     (case fs_readdir fs dir of
        Inl err \<Rightarrow> Some (Threw err s)
      | Inr names \<Rightarrow> forEachSync fs fileHandler fuel dir names s)"
| "forEachSync fs fileHandler fuel dir [] s = Some (Returned s)"
| "forEachSync fs fileHandler fuel dir (file # rest) s =
     (case onFileOrDirectorySync fs fileHandler fuel (fullFilePath dir file) s of
        Some (Returned s') \<Rightarrow> forEachSync fs fileHandler fuel dir rest s'
      | other \<Rightarrow> other)"

definition eachFileOrDirectorySync ::
  "filesystem \<Rightarrow> path \<Rightarrow> 'u syncHandler \<Rightarrow> nat \<Rightarrow> 'u \<Rightarrow> 'u sync_engine outcome option" where
  "eachFileOrDirectorySync fs directory fileHandler fuel u =
     onFileOrDirectorySync fs fileHandler fuel (if directory = [] then ''./'' else directory)
       \<lparr>checkedFilesSync = [], checkedStatsSync = [], upperSync = u\<rparr>"

text \<open>
  The sequential layers wrap the handler only; there is no completion handler. An exception
  raised by the caller's callback, or by \<^verbatim>\<open>fs.readFileSync\<close>, passes through every layer.
\<close>

definition lift_outer :: "'u outcome \<Rightarrow> 'u collector \<Rightarrow> 'u collector outcome" where
  "lift_outer r c =
     (case r of Returned u \<Rightarrow> Returned (c\<lparr>outer := u\<rparr>) | Threw e u \<Rightarrow> Threw e (c\<lparr>outer := u\<rparr>))"

definition eachFileSync_handler :: "'u syncHandler \<Rightarrow> 'u collector syncHandler" where
  "eachFileSync_handler callback arg c =
     (case arg of
        EntryErr err \<Rightarrow> lift_outer (callback (EntryErr err) (outer c)) c
      | Entry file st \<Rightarrow>
          if \<not> isDirectory st
          then (let c1 = c\<lparr>files := files c @ [file], stats := stats c @ [st]\<rparr>
                in lift_outer (callback (Entry file st) (outer c1)) c1)
          else Returned c)"

definition eachFileSync ::
  "filesystem \<Rightarrow> path \<Rightarrow> 'u syncHandler \<Rightarrow> nat \<Rightarrow> 'u \<Rightarrow> 'u collector sync_engine outcome option" where
  "eachFileSync fs path callback fuel u =
     eachFileOrDirectorySync fs path (eachFileSync_handler callback) fuel (new_collector u)"

definition lift_outerMatch :: "'u outcome \<Rightarrow> 'u matcher \<Rightarrow> 'u matcher outcome" where
  "lift_outerMatch r c =
     (case r of
        Returned u \<Rightarrow> Returned (c\<lparr>outerMatch := u\<rparr>)
      | Threw e u \<Rightarrow> Threw e (c\<lparr>outerMatch := u\<rparr>))"

definition eachFileMatchingSync_handler :: "'u syncHandler \<Rightarrow> 'u matcher syncHandler" where
  "eachFileMatchingSync_handler callback arg c =
     (case arg of
        EntryErr err \<Rightarrow> lift_outerMatch (callback (EntryErr err) (outerMatch c)) c
      | Entry file st \<Rightarrow>
          (case test (expression c) file of
             (matched, re) \<Rightarrow>
               (let c0 = c\<lparr>expression := re\<rparr> in
                if matched
                then (let c1 = c0\<lparr>matchedFiles := matchedFiles c0 @ [file],
                                  matchedStats := matchedStats c0 @ [st]\<rparr>
                      in lift_outerMatch (callback (Entry file st) (outerMatch c1)) c1)
                else Returned c0)))"

definition eachFileMatchingSync ::
  "filesystem \<Rightarrow> regexp \<Rightarrow> path \<Rightarrow> 'u syncHandler \<Rightarrow> nat \<Rightarrow> 'u
     \<Rightarrow> 'u matcher collector sync_engine outcome option" where
  "eachFileMatchingSync fs expr path callback fuel u =
     eachFileSync fs path (eachFileMatchingSync_handler callback) fuel (new_matcher expr u)"

text \<open>
  The sequential reader keeps the same three lists as the concurrent one; it issues no
  read, so \<open>reading\<close> stays empty.
\<close>

type_synonym 'u syncReadHandler = "read_arg \<Rightarrow> 'u \<Rightarrow> 'u outcome"

definition undefined_read_error :: "undefined_read \<Rightarrow> error" where
  "undefined_read_error x = (case x of Throws e \<Rightarrow> e | Reports e \<Rightarrow> e)"

definition readEachFileMatchingSync_handler ::
  "filesystem \<Rightarrow> 'u syncReadHandler \<Rightarrow> 'u reader syncHandler" where
  "readEachFileMatchingSync_handler fs callback arg r =
     (case arg of
        EntryErr err \<Rightarrow> Threw (undefined_read_error (fs_readFile_undefined fs)) r
      | Entry file st \<Rightarrow>
          (case fs_readFile fs file of
             Inl err \<Rightarrow> Threw err r
           | Inr content \<Rightarrow>
               (let r1 = r\<lparr>read_files := read_files r @ [file],
                           read_contents := read_contents r @ [content],
                           read_stats := read_stats r @ [st]\<rparr>
                in case callback (ReadEntry file st content) (caller r1) of
                     Returned u \<Rightarrow> Returned (r1\<lparr>caller := u\<rparr>)
                   | Threw e u \<Rightarrow> Threw e (r1\<lparr>caller := u\<rparr>))))"

definition readEachFileMatchingSync ::
  "filesystem \<Rightarrow> regexp \<Rightarrow> path \<Rightarrow> 'u syncReadHandler \<Rightarrow> nat \<Rightarrow> 'u
     \<Rightarrow> 'u reader matcher collector sync_engine outcome option" where
  "readEachFileMatchingSync fs expr path callback fuel u =
     eachFileMatchingSync fs expr path (readEachFileMatchingSync_handler fs callback) fuel
       (new_reader u)"

section \<open>Callers that log what they receive\<close>

text \<open>
  What a caller observes of a session is the sequence of calls made to the two handlers it
  passed. The logging caller appends each call to a list.
\<close>

datatype event = Called entry_arg | Completed complete_arg
datatype read_event = ReadCalled read_arg | ReadCompleted read_complete_arg

definition log_entry :: "event list fileHandler" where
  "log_entry arg evs = evs @ [Called arg]"

definition log_complete :: "event list completeHandler" where
  "log_complete arg evs = evs @ [Completed arg]"

definition log_read :: "read_event list readHandler" where
  "log_read arg evs = evs @ [ReadCalled arg]"

definition log_read_complete :: "read_event list readCompleteHandler" where
  "log_read_complete arg evs = evs @ [ReadCompleted arg]"

definition log_entry_sync :: "event list syncHandler" where
  "log_entry_sync arg evs = Returned (evs @ [Called arg])"

definition log_read_sync :: "read_event list syncReadHandler" where
  "log_read_sync arg evs = Returned (evs @ [ReadCalled arg])"

text \<open>The paths a log shows as visited, and the completion calls in it.\<close>

fun visited :: "event list \<Rightarrow> path list" where
  "visited [] = []"
| "visited (Called (Entry p st) # evs) = p # visited evs"
| "visited (_ # evs) = visited evs"

fun completions :: "event list \<Rightarrow> complete_arg list" where
  "completions [] = []"
| "completions (Completed a # evs) = a # completions evs"
| "completions (_ # evs) = completions evs"

section \<open>Example trees\<close>

text \<open>A tree in which nothing exists: every operation fails.\<close>

definition fs_missing :: "undefined_read \<Rightarrow> filesystem" where
  "fs_missing ur =
     \<lparr>fs_stat = (\<lambda>p. Inl (IOError p)), fs_readdir = (\<lambda>p. Inl (IOError p)),
      fs_readFile = (\<lambda>p. Inl (IOError p)), fs_readFile_undefined = ur\<rparr>"

definition file_stat :: stat where
  "file_stat = \<lparr>isDirectory = False, stat_size = 1\<rparr>"

definition dir_stat :: stat where
  "dir_stat = \<lparr>isDirectory = True, stat_size = 0\<rparr>"

text \<open>The tree \<^verbatim>\<open>root/{a.txt, sub/{b.txt, c.log}}\<close>.\<close>

definition fs_tree :: filesystem where
  "fs_tree =
     \<lparr>fs_stat = (\<lambda>p.
        if p = ''root'' \<or> p = ''root/sub'' then Inr dir_stat
        else if p = ''root/a.txt'' \<or> p = ''root/sub/b.txt'' \<or> p = ''root/sub/c.log''
        then Inr file_stat
        else Inl (IOError p)),
      fs_readdir = (\<lambda>p.
        if p = ''root'' then Inr [''a.txt'', ''sub'']
        else if p = ''root/sub'' then Inr [''b.txt'', ''c.log'']
        else Inl (IOError p)),
      fs_readFile = (\<lambda>p.
        if p = ''root/a.txt'' \<or> p = ''root/sub/b.txt'' \<or> p = ''root/sub/c.log''
        then Inr (''content of '' @ p)
        else Inl (IOError p)),
      fs_readFile_undefined = Throws TypeError\<rparr>"

text \<open>A lone file \<^verbatim>\<open>f.txt\<close>.\<close>

definition fs_single :: filesystem where
  "fs_single =
     \<lparr>fs_stat = (\<lambda>p. if p = ''f.txt'' then Inr file_stat else Inl (IOError p)),
      fs_readdir = (\<lambda>p. Inl (IOError p)),
      fs_readFile = (\<lambda>p. if p = ''f.txt'' then Inr ''hello'' else Inl (IOError p)),
      fs_readFile_undefined = Throws TypeError\<rparr>"

text \<open>The tree \<^verbatim>\<open>d/{bad, ok.txt}\<close> in which \<^verbatim>\<open>d/bad\<close> cannot be probed.\<close>

definition fs_unreadable :: filesystem where
  "fs_unreadable =
     \<lparr>fs_stat = (\<lambda>p.
        if p = ''d'' then Inr dir_stat
        else if p = ''d/ok.txt'' then Inr file_stat
        else Inl (IOError p)),
      fs_readdir = (\<lambda>p. if p = ''d'' then Inr [''bad'', ''ok.txt''] else Inl (IOError p)),
      fs_readFile = (\<lambda>p. if p = ''d/ok.txt'' then Inr ''fine'' else Inl (IOError p)),
      fs_readFile_undefined = Throws TypeError\<rparr>"


text \<open>
  The states a reader session on the lone file goes through: at the call, after the probe
  has returned, after the read has returned.
\<close>

definition single0 :: "read_event list read_session" where
  "single0 =
     eachFileOrDirectory_start ''f.txt''
       (new_collector (new_matcher (literal [] False) (new_reader [])))"

definition single1 :: "read_event list read_session" where
  "single1 = tick_step fs_single log_read log_read_complete (Traverse 0) single0"

definition single2 :: "read_event list read_session" where
  "single2 = tick_step fs_single log_read log_read_complete (Read 0) single1"

text \<open>The same for a reader session on a root that does not exist.\<close>

definition missing0 :: "read_event list read_session" where
  "missing0 =
     eachFileOrDirectory_start ''missing''
       (new_collector (new_matcher (literal [] False) (new_reader [])))"

definition missing1 :: "undefined_read \<Rightarrow> read_event list read_session" where
  "missing1 ur =
     tick_step (fs_missing ur) log_read log_read_complete (Traverse 0) missing0"

definition missing2 :: "undefined_read \<Rightarrow> read_event list read_session" where
  "missing2 ur =
     tick_step (fs_missing ur) log_read log_read_complete (Read 0) (missing1 ur)"

section \<open>Notions used in the properties\<close>

text \<open>
  The stat at a position of a list is the one the collaborator produces for the file at that
  position, and likewise for contents. A handler argument is valid when it carries such
  data. \<open>engine_of\<close> is the engine's own part of a session state.
\<close>


definition corresponds :: "filesystem \<Rightarrow> path list \<Rightarrow> stat list \<Rightarrow> bool" where
  "corresponds fs ps sts = list_all2 (\<lambda>f st. fs_stat fs f = Inr st) ps sts"

definition contents_correspond :: "filesystem \<Rightarrow> path list \<Rightarrow> content list \<Rightarrow> bool" where
  "contents_correspond fs ps cs = list_all2 (\<lambda>f c. fs_readFile fs f = Inr c) ps cs"

fun valid_entry :: "filesystem \<Rightarrow> entry_arg \<Rightarrow> bool" where
  "valid_entry fs (EntryErr e) = True"
| "valid_entry fs (Entry p st) = (fs_stat fs p = Inr st)"

fun valid_complete :: "filesystem \<Rightarrow> complete_arg \<Rightarrow> bool" where
  "valid_complete fs (CompleteErr e) = True"
| "valid_complete fs (Complete ps sts) = corresponds fs ps sts"

definition engine_of :: "'u engine \<Rightarrow> task list \<times> int \<times> path list \<times> stat list" where
  "engine_of s = (pending s, filesToCheck s, checkedFiles s, checkedStats s)"

definition engine_inv :: "filesystem \<Rightarrow> 'u engine \<Rightarrow> bool" where
  "engine_inv fs s =
     (filesToCheck s = int (length (pending s)) \<and> corresponds fs (checkedFiles s) (checkedStats s))"

text \<open>
  A pattern matches a string when its matcher succeeds at some index of the string.
  Filtering from outside what \<^verbatim>\<open>eachFile\<close> delivers, by a predicate on the path: an entry
  is kept when its path satisfies it, the lists of a completion are filtered pairwise, errors
  are kept. \<open>filtered\<close> relates the handler states of an \<^verbatim>\<open>eachFile\<close> session and of an
  \<^verbatim>\<open>eachFileMatching\<close> session whose caller logs and whose expression is as it was passed.
\<close>


definition matches :: "regexp \<Rightarrow> string \<Rightarrow> bool" where
  "matches R S = list_ex (\<lambda>i. match_at R S i \<noteq> None) [0 ..< Suc (length S)]"





text \<open>
  What the lists of a completion call must satisfy, the state an outcome leaves behind, and
  the invariants of each layer: its lists correspond position by position, the reads it has
  issued carry the stat of their file, and the state of its caller satisfies \<open>Q\<close>.
\<close>

fun payload_ok :: "filesystem \<Rightarrow> event \<Rightarrow> bool" where
  "payload_ok fs (Completed (Complete ps sts)) = corresponds fs ps sts"
| "payload_ok fs _ = True"

fun read_payload_ok :: "filesystem \<Rightarrow> read_event \<Rightarrow> bool" where
  "read_payload_ok fs (ReadCompleted (ReadComplete ps sts cs)) =
     (corresponds fs ps sts \<and> contents_correspond fs ps cs)"
| "read_payload_ok fs _ = True"

fun outcome_state :: "'a outcome \<Rightarrow> 'a" where
  "outcome_state (Returned s) = s"
| "outcome_state (Threw e s) = s"

definition collector_inv :: "filesystem \<Rightarrow> ('u \<Rightarrow> bool) \<Rightarrow> 'u collector \<Rightarrow> bool" where
  "collector_inv fs Q c = (corresponds fs (files c) (stats c) \<and> Q (outer c))"

definition matcher_inv :: "filesystem \<Rightarrow> ('u \<Rightarrow> bool) \<Rightarrow> 'u matcher \<Rightarrow> bool" where
  "matcher_inv fs Q c = (corresponds fs (matchedFiles c) (matchedStats c) \<and> Q (outerMatch c))"

fun valid_read_task :: "filesystem \<Rightarrow> read_task \<Rightarrow> bool" where
  "valid_read_task fs (ReadFileTask file st) = (fs_stat fs file = Inr st)"
| "valid_read_task fs ReadFileUndefinedTask = True"

definition reader_inv :: "filesystem \<Rightarrow> ('u \<Rightarrow> bool) \<Rightarrow> 'u reader \<Rightarrow> bool" where
  "reader_inv fs Q r =
     (list_all (valid_read_task fs) (reading r) \<and>
      corresponds fs (read_files r) (read_stats r) \<and>
      contents_correspond fs (read_files r) (read_contents r) \<and> Q (caller r))"

fun valid_read_complete :: "filesystem \<Rightarrow> read_complete_arg \<Rightarrow> bool" where
  "valid_read_complete fs (ReadCompleteErr e) = True"
| "valid_read_complete fs (ReadComplete ps sts cs) =
     (corresponds fs ps sts \<and> contents_correspond fs ps cs)"

definition sync_inv :: "filesystem \<Rightarrow> ('u \<Rightarrow> bool) \<Rightarrow> 'u sync_engine \<Rightarrow> bool" where
  "sync_inv fs Q s = (corresponds fs (checkedFilesSync s) (checkedStatsSync s) \<and> Q (upperSync s))"

definition read_session_inv :: "filesystem \<Rightarrow> ('u \<Rightarrow> bool) \<Rightarrow> 'u read_session \<Rightarrow> bool" where
  "read_session_inv fs Q s =
     (corresponds fs (checkedFiles s) (checkedStats s) \<and>
      collector_inv fs (matcher_inv fs (reader_inv fs Q)) (upper s))"

text \<open>
  The paths below a root: a child of a path is the join of the path with a name its listing
  gives, where the path is a directory that can be listed. \<open>level fs root n\<close> is the set of
  paths \<open>n\<close> levels below the root; a tree has fewer than \<open>n\<close> levels when that set is empty.
  The walk below a root is \<open>healthy\<close> when no operation on it fails: every path reachable from
  the root can be probed and every directory among them can be listed. \<open>covered\<close> is the invariant of the engine on a healthy tree: everything
  checked or pending is below the root, the root is checked or pending, and every child of a
  checked directory is checked or pending, unless the listing of the directory is pending.
  \<open>tree_files\<close> relates the log of an engine session on the example tree to the state of an
  \<^verbatim>\<open>eachFile\<close> session on it.
\<close>

definition child_rel :: "filesystem \<Rightarrow> (path \<times> path) set" where
  "child_rel fs =
     {(p, q). \<exists>st names name. fs_stat fs p = Inr st \<and> isDirectory st \<and>
        fs_readdir fs p = Inr names \<and> name \<in> set names \<and> q = fullFilePath p name}"

definition reachable :: "filesystem \<Rightarrow> path \<Rightarrow> path set" where
  "reachable fs root = (child_rel fs)\<^sup>* `` {root}"

definition level :: "filesystem \<Rightarrow> path \<Rightarrow> nat \<Rightarrow> path set" where
  "level fs root n = (child_rel fs ^^ n) `` {root}"

definition probes_ok :: "filesystem \<Rightarrow> path \<Rightarrow> bool" where
  "probes_ok fs p =
     (\<exists>st. fs_stat fs p = Inr st \<and> (isDirectory st \<longrightarrow> (\<exists>names. fs_readdir fs p = Inr names)))"

definition healthy :: "filesystem \<Rightarrow> path \<Rightarrow> bool" where
  "healthy fs root = (\<forall>p \<in> reachable fs root. probes_ok fs p)"

definition is_dir :: "filesystem \<Rightarrow> path \<Rightarrow> bool" where
  "is_dir fs p = (\<exists>st. fs_stat fs p = Inr st \<and> isDirectory st)"

fun task_ok :: "filesystem \<Rightarrow> path \<Rightarrow> task \<Rightarrow> bool" where
  "task_ok fs root (StatTask p) = (p \<in> reachable fs root)"
| "task_ok fs root (ReaddirTask p) = (p \<in> reachable fs root \<and> is_dir fs p)"

definition covered :: "filesystem \<Rightarrow> path \<Rightarrow> task list \<Rightarrow> path list \<Rightarrow> bool" where
  "covered fs root pend chk =
     (set chk \<subseteq> reachable fs root \<and> (\<forall>t \<in> set pend. task_ok fs root t) \<and>
      (root \<in> set chk \<or> StatTask root \<in> set pend) \<and>
      (\<forall>p q. p \<in> set chk \<longrightarrow> (p, q) \<in> child_rel fs \<longrightarrow>
         ReaddirTask p \<in> set pend \<or> q \<in> set chk \<or> StatTask q \<in> set pend))"

definition tree_files :: "event list \<Rightarrow> event list collector \<Rightarrow> bool" where
  "tree_files u1 u2 =
     (set (visited (outer u2)) = set (visited u1) - {''root'', ''root/sub''})"

text \<open>
  \<open>raises fs fh n p s e s'\<close>: in the sequential walk of \<open>p\<close> from the state \<open>s\<close>, a probe or a
  listing fails with \<open>e\<close>, everything the walk did before has returned, and \<open>s'\<close> is the state
  at the failure. The failure is the probe of \<open>p\<close>, the listing of \<open>p\<close>, or a failure in the
  walk of one child of \<open>p\<close>, whatever names follow that child in the listing.
\<close>

inductive raises ::
  "filesystem \<Rightarrow> 'u syncHandler \<Rightarrow> nat \<Rightarrow> path \<Rightarrow> 'u sync_engine \<Rightarrow> error \<Rightarrow> 'u sync_engine \<Rightarrow> bool"
  for fs :: filesystem and fh :: "'u syncHandler" where
  probe_fails:
    "fs_stat fs p = Inl e \<Longrightarrow> raises fs fh (Suc n) p s e s"
| expand_fails:
    "fs_stat fs p = Inr st \<Longrightarrow> isDirectory st \<Longrightarrow>
     fh (Entry p st) (upperSync s) = Returned u \<Longrightarrow>
     fs_readdir fs p = Inl e \<Longrightarrow>
     raises fs fh (Suc n) p s e
       (s\<lparr>checkedFilesSync := checkedFilesSync s @ [p],
          checkedStatsSync := checkedStatsSync s @ [st], upperSync := u\<rparr>)"
| below_fails:
    "fs_stat fs p = Inr st \<Longrightarrow> isDirectory st \<Longrightarrow>
     fh (Entry p st) (upperSync s) = Returned u \<Longrightarrow>
     fs_readdir fs p = Inr (before @ name # after) \<Longrightarrow>
     forEachSync fs fh n p before
       (s\<lparr>checkedFilesSync := checkedFilesSync s @ [p],
          checkedStatsSync := checkedStatsSync s @ [st], upperSync := u\<rparr>) = Some (Returned s1) \<Longrightarrow>
     raises fs fh n (fullFilePath p name) s1 e s2 \<Longrightarrow>
     raises fs fh (Suc n) p s e s2"

text \<open>
  Two invariants of an engine session whose caller logs. \<open>completes_last\<close>: the counter is the
  number of pending operations, and a completion call, if there is one, is the last call of
  the log, made when nothing is pending. \<open>completes_once\<close>, for a walk without failure: there
  is no completion call while something is pending and exactly one, with the accumulated
  lists, when nothing is.
\<close>

definition completes_last :: "event list engine \<Rightarrow> bool" where
  "completes_last s =
     (filesToCheck s = int (length (pending s)) \<and>
      (completions (upper s) = [] \<or>
       (pending s = [] \<and> (\<exists>evs a. upper s = evs @ [Completed a] \<and> completions evs = []))))"

definition completes_once :: "event list engine \<Rightarrow> bool" where
  "completes_once s =
     (filesToCheck s = int (length (pending s)) \<and>
      (if pending s = [] then completions (upper s) = [Complete (checkedFiles s) (checkedStats s)]
       else completions (upper s) = []))"

section \<open>Properties\<close>

subsection \<open>Joining paths\<close>

lemma strip_slashes_one:
  assumes "\<not> suffix ''//'' dir"
  shows "rev (dropWhile (\<lambda>c. c = CHR ''/'') (rev dir)) =
           (if dir \<noteq> [] \<and> last dir = CHR ''/'' then butlast dir else dir)"
proof (cases dir rule: rev_cases)
  case Nil
  then show ?thesis by simp
next
  case (snoc ys y)
  show ?thesis
  proof (cases "y = CHR ''/''")
    case False
    with snoc show ?thesis by simp
  next
    case True
    have "rev (dropWhile (\<lambda>c. c = CHR ''/'') (rev ys)) = ys"
    proof (cases ys rule: rev_cases)
      case Nil
      then show ?thesis by simp
    next
      case (snoc zs z)
      with assms \<open>dir = ys @ [y]\<close> True have "z \<noteq> CHR ''/''"
        by (auto simp: suffix_def)
      with snoc show ?thesis by simp
    qed
    with snoc True show ?thesis by simp
  qed
qed

text \<open>
  C9, as stated: a parent ending in one or more slashes yields a single slash between
  parent and child. It fails for the parent \<^verbatim>\<open>a//\<close>: one slash is removed, one is added,
  and the child path is \<^verbatim>\<open>a//b\<close>.
\<close>

theorem fullFilePath_double_slash:
  "fullFilePath ''a//'' ''b'' = ''a//b'' \<and> fullFilePath ''a//'' ''b'' \<noteq> ''a/b''"
  by (simp add: fullFilePath_def)

text \<open>
  C9, amended: for a parent that does not end in two slashes, the child path is the parent
  without its trailing slashes, one slash, and the child name; of two or more trailing
  slashes only the last is removed.
\<close>

theorem fullFilePath_strips_one_slash:
  "(\<not> suffix ''//'' dir \<longrightarrow>
      fullFilePath dir file = rev (dropWhile (\<lambda>c. c = CHR ''/'') (rev dir)) @ ''/'' @ file) \<and>
   fullFilePath (base @ ''//'') file = base @ ''//'' @ file"
proof
  show "\<not> suffix ''//'' dir \<longrightarrow>
      fullFilePath dir file = rev (dropWhile (\<lambda>c. c = CHR ''/'') (rev dir)) @ ''/'' @ file"
    by (simp add: strip_slashes_one fullFilePath_def)
  show "fullFilePath (base @ ''//'') file = base @ ''//'' @ file"
    by (simp add: fullFilePath_def butlast_append)
qed

theorem fullFilePath_strips_one_slash_witness:
  "\<not> suffix ''//'' ''root/'' \<and> fullFilePath ''root/'' ''a.txt'' = ''root/a.txt''"
  using fullFilePath_strips_one_slash [of "''root/''" "''a.txt''"]
  by (simp add: suffix_def)

subsection \<open>Patterns\<close>

lemma search_matches:
  "\<not> sticky R \<Longrightarrow> (search R S idxs \<noteq> None) = list_ex (\<lambda>i. match_at R S i \<noteq> None) idxs"
  by (induction idxs) (auto split: option.splits)

lemma test_without_flags:
  "\<not> global R \<Longrightarrow> \<not> sticky R \<Longrightarrow> test R S = (matches R S, R)"
  using search_matches [of R S "[0 ..< Suc (length S)]"]
  by (simp add: test_def matches_def del: upt_Suc)

lemma test_empty_word: "test (literal [] False) S = (True, literal [] False)"
  using test_without_flags [of "literal [] False" S]
  by (simp add: matches_def literal_def upt_conv_Cons del: upt_Suc)

text \<open>
  The three kinds of pattern on the path \<^verbatim>\<open>root/sub\<close>: \<^verbatim>\<open>/sub/\<close> finds the word and keeps
  no state, \<^verbatim>\<open>/sub/g\<close> finds it and leaves \<^verbatim>\<open>lastIndex\<close> behind it, so the next test of
  the same path fails, and \<^verbatim>\<open>/sub/y\<close> looks at \<^verbatim>\<open>lastIndex\<close> only.
\<close>

lemma test_flags:
  "test (literal ''sub'' False) ''root/sub'' = (True, literal ''sub'' False) \<and>
   test (literal ''sub'' True) ''root/sub'' = (True, (literal ''sub'' True)\<lparr>lastIndex := 8\<rparr>) \<and>
   test ((literal ''sub'' True)\<lparr>lastIndex := 8\<rparr>) ''root/sub'' = (False, literal ''sub'' True) \<and>
   test ((literal ''sub'' False)\<lparr>sticky := True\<rparr>) ''root/sub'' =
     (False, (literal ''sub'' False)\<lparr>sticky := True\<rparr>) \<and>
   test ((literal ''sub'' False)\<lparr>sticky := True, lastIndex := 5\<rparr>) ''root/sub'' =
     (True, (literal ''sub'' False)\<lparr>sticky := True, lastIndex := 8\<rparr>)"
  by (simp add: test_def literal_def upt_rec)

subsection \<open>Schedules\<close>

lemma run_Nil [simp]: "run fs fh ch [] s = s"
  by (simp add: run_def)

lemma run_Cons [simp]: "run fs fh ch (i # sched) s = run fs fh ch sched (step fs fh ch i s)"
  by (simp add: run_def)

lemma run_append: "run fs fh ch (xs @ ys) s = run fs fh ch ys (run fs fh ch xs s)"
  by (simp add: run_def)

lemma step_idle: "pending s = [] \<Longrightarrow> step fs fh ch i s = s"
  by (simp add: step_def)

lemma run_idle: "pending s = [] \<Longrightarrow> run fs fh ch sched s = s"
  by (induction sched) (simp_all add: step_idle)

subsection \<open>A root that does not exist\<close>

lemma missing_step:
  "step (fs_missing ur) log_entry log_complete i (eachFileOrDirectory_start ''missing'' []) =
     (if i = 0
      then \<lparr>pending = [], filesToCheck = 0, checkedFiles = [], checkedStats = [],
            upper = [Called (EntryErr (IOError ''missing''))]\<rparr>
      else eachFileOrDirectory_start ''missing'' [])"
  by (simp add: step_def eachFileOrDirectory_start_def onFileOrDirectory_def fs_missing_def
      stat_callback_def log_entry_def)

lemma missing_run:
  "run (fs_missing ur) log_entry log_complete sched (eachFileOrDirectory_start ''missing'' []) =
     (if 0 \<in> set sched
      then \<lparr>pending = [], filesToCheck = 0, checkedFiles = [], checkedStats = [],
            upper = [Called (EntryErr (IOError ''missing''))]\<rparr>
      else eachFileOrDirectory_start ''missing'' [])"
  by (induction sched) (auto simp: missing_step run_idle)

text \<open>
  C1 at the root that does not exist: under every schedule the completion handler is never
  called, so it never receives the error; once the probe has failed, the per-entry handler
  has received the error and nothing else happens. In the tree \<^verbatim>\<open>d/{bad, ok.txt}\<close>, when the
  failing probe is not the last result to arrive, the completion handler is called without
  an error and with the entries accumulated so far.
\<close>

theorem missing_root_completion_never_called:
  "completions (upper (eachFileOrDirectory (fs_missing ur) ''missing'' log_entry log_complete
      sched [])) = [] \<and>
   upper (eachFileOrDirectory (fs_missing ur) ''missing'' log_entry log_complete (0 # sched) []) =
     [Called (EntryErr (IOError ''missing''))] \<and>
   completions (upper (eachFileOrDirectory fs_unreadable ''d'' log_entry log_complete
      [0, 0, 0, 0] [])) = [Complete [''d'', ''d/ok.txt''] [dir_stat, file_stat]]"
  apply (intro conjI)
    apply (simp add: eachFileOrDirectory_def missing_run)
    apply (simp add: eachFileOrDirectory_start_def onFileOrDirectory_def)
   apply (simp add: eachFileOrDirectory_def missing_run del: run_Cons)
  apply (simp add: eachFileOrDirectory_def eachFileOrDirectory_start_def onFileOrDirectory_def
      step_def stat_callback_def readdir_callback_def checkComplete_def onDirectory_def
      fs_unreadable_def log_entry_def log_complete_def fullFilePath_def dir_stat_def file_stat_def)
  done


lemmas engine_defs = step_def stat_callback_def readdir_callback_def checkComplete_def
  onDirectory_def onFileOrDirectory_def eachFileOrDirectory_start_def

lemmas layer_defs = eachFile_handler_def eachFile_complete_def eachFileMatching_handler_def
  eachFileMatching_complete_def new_collector_def new_matcher_def test_empty_word

lemmas reader_defs = tick_step_def reader_of_def map_reader_def reader_fileHandler_def
  reader_completeHandler_def readEachFileMatching_handler_def readEachFileMatching_complete_def
  readFile_callback_def read_step_def new_reader_def

subsection \<open>The counter and the completion handler\<close>

text \<open>
  C2 at the root that does not exist: the counter goes from one to zero when the probe
  fails, nothing is pending any more, and under no schedule is the completion handler
  called. In the tree \<^verbatim>\<open>d/{bad, ok.txt}\<close>, when the failing probe is the last result to
  arrive, the counter reaches zero and the completion handler is not called either.
\<close>

theorem counter_zero_without_completion:
  "filesToCheck (eachFileOrDirectory (fs_missing ur) ''missing'' log_entry log_complete [] []) = 1 \<and>
   filesToCheck (eachFileOrDirectory (fs_missing ur) ''missing'' log_entry log_complete
      (0 # sched) []) = 0 \<and>
   pending (eachFileOrDirectory (fs_missing ur) ''missing'' log_entry log_complete
      (0 # sched) []) = [] \<and>
   completions (upper (eachFileOrDirectory (fs_missing ur) ''missing'' log_entry log_complete
      (0 # sched) [])) = [] \<and>
   filesToCheck (eachFileOrDirectory fs_unreadable ''d'' log_entry log_complete [0, 0, 1, 0] []) = 0 \<and>
   completions (upper (eachFileOrDirectory fs_unreadable ''d'' log_entry log_complete
      [0, 0, 1, 0] [])) = []"
  apply (intro conjI)
       apply (simp add: eachFileOrDirectory_def eachFileOrDirectory_start_def onFileOrDirectory_def)
      apply (simp add: eachFileOrDirectory_def missing_run del: run_Cons)
     apply (simp add: eachFileOrDirectory_def missing_run del: run_Cons)
    apply (simp add: eachFileOrDirectory_def missing_run del: run_Cons)
   apply (simp add: eachFileOrDirectory_def engine_defs
      fs_unreadable_def log_entry_def log_complete_def fullFilePath_def dir_stat_def file_stat_def)
  apply (simp add: eachFileOrDirectory_def engine_defs
      fs_unreadable_def log_entry_def log_complete_def fullFilePath_def dir_stat_def file_stat_def)
  done

subsection \<open>Reader sessions\<close>

lemma run_ticks_Nil [simp]: "run_ticks fs cb ch [] s = s"
  by (simp add: run_ticks_def)

lemma run_ticks_Cons [simp]:
  "run_ticks fs cb ch (t # ts) s = run_ticks fs cb ch ts (tick_step fs cb ch t s)"
  by (simp add: run_ticks_def)

lemma readEachFileMatching_ticks:
  "readEachFileMatching fs e path cb ch ticks u =
     run_ticks fs cb ch ticks
       (eachFileOrDirectory_start path (new_collector (new_matcher e (new_reader u))))"
  by (simp add: readEachFileMatching_def)

lemma run_ticks_fixed:
  "(\<And>t. tick_step fs cb ch t s = s) \<Longrightarrow> run_ticks fs cb ch ts s = s"
  by (induction ts) simp_all

lemma run_ticks_two:
  assumes "\<And>t. tick_step fs cb ch t s = s \<or> tick_step fs cb ch t s = s'"
    and "\<And>t. tick_step fs cb ch t s' = s'"
  shows "run_ticks fs cb ch ts s = s \<or> run_ticks fs cb ch ts s = s'"
proof (induction ts)
  case Nil
  then show ?case by simp
next
  case (Cons t ts)
  from assms(1) [of t] show ?case
  proof
    assume "tick_step fs cb ch t s = s"
    with Cons show ?thesis by simp
  next
    assume "tick_step fs cb ch t s = s'"
    with run_ticks_fixed [of fs cb ch s' ts] assms(2) show ?thesis by simp
  qed
qed

lemma run_ticks_three:
  assumes "\<And>t. tick_step fs cb ch t s = s \<or> tick_step fs cb ch t s = s'"
    and "\<And>t. tick_step fs cb ch t s' = s' \<or> tick_step fs cb ch t s' = s''"
    and "\<And>t. tick_step fs cb ch t s'' = s''"
  shows "run_ticks fs cb ch ts s \<in> {s, s', s''}"
proof (induction ts)
  case Nil
  then show ?case by simp
next
  case (Cons t ts)
  from assms(1) [of t] show ?case
  proof
    assume "tick_step fs cb ch t s = s"
    with Cons show ?thesis by simp
  next
    assume "tick_step fs cb ch t s = s'"
    with run_ticks_two [of fs cb ch s' s'' ts] assms(2,3) show ?thesis by auto
  qed
qed

lemma single0_step:
  "tick_step fs_single log_read log_read_complete t single0 = single0 \<or>
   tick_step fs_single log_read log_read_complete t single0 = single1"
proof (cases t)
  case (Traverse i)
  then show ?thesis
    by (cases i) (simp_all add: single1_def, simp add: single0_def engine_defs reader_defs layer_defs)
next
  case (Read i)
  then show ?thesis
    by (simp add: single0_def engine_defs reader_defs layer_defs)
qed

lemma single1_eq:
  "single1 = \<lparr>pending = [], filesToCheck = 0, checkedFiles = [''f.txt''],
      checkedStats = [file_stat],
      upper = \<lparr>files = [''f.txt''], stats = [file_stat],
        outer = \<lparr>expression = literal [] False, matchedFiles = [''f.txt''], matchedStats = [file_stat],
          outerMatch = \<lparr>reading = [ReadFileTask ''f.txt'' file_stat], uncaught = None,
            read_files = [], read_contents = [], read_stats = [],
            caller = [ReadCompleted (ReadComplete [] [] [])]\<rparr>\<rparr>\<rparr>\<rparr>"
  by (simp add: single1_def single0_def engine_defs reader_defs layer_defs fs_single_def
      file_stat_def log_read_complete_def)

lemma single2_eq:
  "single2 = \<lparr>pending = [], filesToCheck = 0, checkedFiles = [''f.txt''],
      checkedStats = [file_stat],
      upper = \<lparr>files = [''f.txt''], stats = [file_stat],
        outer = \<lparr>expression = literal [] False, matchedFiles = [''f.txt''], matchedStats = [file_stat],
          outerMatch = \<lparr>reading = [], uncaught = None,
            read_files = [''f.txt''], read_contents = [''hello''], read_stats = [file_stat],
            caller = [ReadCompleted (ReadComplete [] [] []),
                      ReadCalled (ReadEntry ''f.txt'' file_stat ''hello'')]\<rparr>\<rparr>\<rparr>\<rparr>"
  by (simp add: single2_def single1_eq reader_defs fs_single_def log_read_def)

lemma single1_step:
  "tick_step fs_single log_read log_read_complete t single1 = single1 \<or>
   tick_step fs_single log_read log_read_complete t single1 = single2"
proof (cases t)
  case (Traverse i)
  then show ?thesis
    by (simp add: single1_eq tick_step_def reader_of_def step_def)
next
  case (Read i)
  then show ?thesis
    by (cases i) (simp_all add: single2_def, simp add: single1_eq reader_defs)
qed

lemma single2_step:
  "tick_step fs_single log_read log_read_complete t single2 = single2"
  by (cases t) (simp_all add: single2_eq tick_step_def reader_of_def step_def map_reader_def read_step_def)

text \<open>
  C5 on the lone file \<^verbatim>\<open>f.txt\<close>, which the pattern matches: under every order of results
  the caller's log is a prefix of the same two calls, first the completion handler with
  three empty lists, then the per-entry handler with the content. The read is issued in the
  callback that also finds the counter at zero, so the completion handler runs while the
  read is outstanding and its lists never hold the file.
\<close>

theorem single_file_completes_before_read:
  "prefix (caller (reader_of (readEachFileMatching fs_single (literal [] False) ''f.txt''
       log_read log_read_complete ticks [])))
     [ReadCompleted (ReadComplete [] [] []), ReadCalled (ReadEntry ''f.txt'' file_stat ''hello'')] \<and>
   caller (reader_of (readEachFileMatching fs_single (literal [] False) ''f.txt''
       log_read log_read_complete [Traverse 0, Read 0] [])) =
     [ReadCompleted (ReadComplete [] [] []), ReadCalled (ReadEntry ''f.txt'' file_stat ''hello'')]"
proof
  have "run_ticks fs_single log_read log_read_complete ticks single0
          \<in> {single0, single1, single2}"
    by (rule run_ticks_three [OF single0_step single1_step single2_step])
  moreover have "caller (reader_of single0) = []"
    by (simp add: single0_def engine_defs reader_defs layer_defs)
  moreover have "caller (reader_of single1) = [ReadCompleted (ReadComplete [] [] [])]"
    by (simp add: single1_eq reader_of_def)
  moreover have "caller (reader_of single2) =
      [ReadCompleted (ReadComplete [] [] []), ReadCalled (ReadEntry ''f.txt'' file_stat ''hello'')]"
    by (simp add: single2_eq reader_of_def)
  ultimately show "prefix (caller (reader_of (readEachFileMatching fs_single (literal [] False) ''f.txt''
       log_read log_read_complete ticks [])))
     [ReadCompleted (ReadComplete [] [] []), ReadCalled (ReadEntry ''f.txt'' file_stat ''hello'')]"
    unfolding readEachFileMatching_ticks single0_def [symmetric]
    by (auto simp: prefix_def)
  show "caller (reader_of (readEachFileMatching fs_single (literal [] False) ''f.txt''
       log_read log_read_complete [Traverse 0, Read 0] [])) =
     [ReadCompleted (ReadComplete [] [] []), ReadCalled (ReadEntry ''f.txt'' file_stat ''hello'')]"
    unfolding readEachFileMatching_ticks single0_def [symmetric]
    by (simp add: single1_def [symmetric] single2_def [symmetric]) (simp add: single2_eq reader_of_def)
qed

lemma missing0_step:
  "tick_step (fs_missing ur) log_read log_read_complete t missing0 = missing0 \<or>
   tick_step (fs_missing ur) log_read log_read_complete t missing0 = missing1 ur"
proof (cases t)
  case (Traverse i)
  then show ?thesis
    by (cases i) (simp_all add: missing1_def, simp add: missing0_def engine_defs reader_defs layer_defs)
next
  case (Read i)
  then show ?thesis
    by (simp add: missing0_def engine_defs reader_defs layer_defs)
qed

lemma missing1_throws:
  "missing1 (Throws e) = \<lparr>pending = [], filesToCheck = 0, checkedFiles = [], checkedStats = [],
      upper = \<lparr>files = [], stats = [],
        outer = \<lparr>expression = literal [] False, matchedFiles = [], matchedStats = [],
          outerMatch = \<lparr>reading = [], uncaught = Some e,
            read_files = [], read_contents = [], read_stats = [], caller = []\<rparr>\<rparr>\<rparr>\<rparr>"
  by (simp add: missing1_def missing0_def engine_defs reader_defs layer_defs fs_missing_def)

lemma missing1_reports:
  "missing1 (Reports e) = \<lparr>pending = [], filesToCheck = 0, checkedFiles = [], checkedStats = [],
      upper = \<lparr>files = [], stats = [],
        outer = \<lparr>expression = literal [] False, matchedFiles = [], matchedStats = [],
          outerMatch = \<lparr>reading = [ReadFileUndefinedTask], uncaught = None,
            read_files = [], read_contents = [], read_stats = [], caller = []\<rparr>\<rparr>\<rparr>\<rparr>"
  by (simp add: missing1_def missing0_def engine_defs reader_defs layer_defs fs_missing_def)

lemma missing2_reports:
  "missing2 (Reports e) = \<lparr>pending = [], filesToCheck = 0, checkedFiles = [], checkedStats = [],
      upper = \<lparr>files = [], stats = [],
        outer = \<lparr>expression = literal [] False, matchedFiles = [], matchedStats = [],
          outerMatch = \<lparr>reading = [], uncaught = None,
            read_files = [], read_contents = [], read_stats = [],
            caller = [ReadCalled (ReadErr e)]\<rparr>\<rparr>\<rparr>\<rparr>"
  by (simp add: missing2_def missing1_reports reader_defs fs_missing_def log_read_def)

lemma missing1_throws_step:
  "tick_step (fs_missing (Throws e)) log_read log_read_complete t (missing1 (Throws e))
     = missing1 (Throws e)"
  by (simp add: missing1_throws tick_step_def reader_of_def)

lemma missing1_reports_step:
  "tick_step (fs_missing (Reports e)) log_read log_read_complete t (missing1 (Reports e))
     = missing1 (Reports e) \<or>
   tick_step (fs_missing (Reports e)) log_read log_read_complete t (missing1 (Reports e))
     = missing2 (Reports e)"
proof (cases t)
  case (Traverse i)
  then show ?thesis
    by (simp add: missing1_reports tick_step_def reader_of_def step_def)
next
  case (Read i)
  then show ?thesis
    by (cases i) (simp_all add: missing2_def, simp add: missing1_reports reader_defs)
qed

lemma missing2_reports_step:
  "tick_step (fs_missing (Reports e)) log_read log_read_complete t (missing2 (Reports e))
     = missing2 (Reports e)"
  by (cases t)
    (simp_all add: missing2_reports tick_step_def reader_of_def step_def map_reader_def read_step_def)

text \<open>
  C4 at the root that does not exist: \<^verbatim>\<open>eachFileMatching\<close> hands the probe's error to its
  caller's callback. The reader's callback for it ignores that error and reads the undefined
  path: its caller never receives the probe's error. Where the collaborator raises, the
  caller's handlers are never called and the exception is uncaught; where it reports, the
  caller receives the error of the read of the undefined path.
\<close>

theorem reader_replaces_probe_error:
  "outerMatch (outer (upper (eachFileMatching (fs_missing ur) (literal [] False) ''missing''
       log_entry log_complete [0] []))) = [Called (EntryErr (IOError ''missing''))] \<and>
   caller (reader_of (readEachFileMatching (fs_missing (Throws TypeError)) (literal [] False) ''missing''
       log_read log_read_complete ticks [])) = [] \<and>
   uncaught (reader_of (readEachFileMatching (fs_missing (Throws TypeError)) (literal [] False) ''missing''
       log_read log_read_complete (Traverse 0 # ticks) [])) = Some TypeError \<and>
   prefix (caller (reader_of (readEachFileMatching (fs_missing (Reports TypeError)) (literal [] False)
       ''missing'' log_read log_read_complete ticks []))) [ReadCalled (ReadErr TypeError)] \<and>
   caller (reader_of (readEachFileMatching (fs_missing (Reports TypeError)) (literal [] False) ''missing''
       log_read log_read_complete [Traverse 0, Read 0] [])) = [ReadCalled (ReadErr TypeError)]"
proof (intro conjI)
  show "outerMatch (outer (upper (eachFileMatching (fs_missing ur) (literal [] False) ''missing''
       log_entry log_complete [0] []))) = [Called (EntryErr (IOError ''missing''))]"
    by (simp add: eachFileMatching_def eachFile_def eachFileOrDirectory_def engine_defs layer_defs
        fs_missing_def log_entry_def)
  have c0: "caller (reader_of missing0) = []"
    by (simp add: missing0_def engine_defs reader_defs layer_defs)
  have "run_ticks (fs_missing (Throws TypeError)) log_read log_read_complete ticks missing0
          = missing0 \<or>
        run_ticks (fs_missing (Throws TypeError)) log_read log_read_complete ticks missing0
          = missing1 (Throws TypeError)"
    by (rule run_ticks_two [OF missing0_step missing1_throws_step])
  then show "caller (reader_of (readEachFileMatching (fs_missing (Throws TypeError)) (literal [] False)
       ''missing'' log_read log_read_complete ticks [])) = []"
    unfolding readEachFileMatching_ticks missing0_def [symmetric]
    using c0 by (auto simp: missing1_throws reader_of_def)
  show "uncaught (reader_of (readEachFileMatching (fs_missing (Throws TypeError)) (literal [] False)
       ''missing'' log_read log_read_complete (Traverse 0 # ticks) [])) = Some TypeError"
    unfolding readEachFileMatching_ticks missing0_def [symmetric]
    by (simp add: missing1_def [symmetric] run_ticks_fixed [OF missing1_throws_step])
       (simp add: missing1_throws reader_of_def)
  have "run_ticks (fs_missing (Reports TypeError)) log_read log_read_complete ticks
          missing0 \<in> {missing0, missing1 (Reports TypeError), missing2 (Reports TypeError)}"
    by (rule run_ticks_three [OF missing0_step missing1_reports_step missing2_reports_step])
  then show "prefix (caller (reader_of (readEachFileMatching (fs_missing (Reports TypeError))
       (literal [] False) ''missing'' log_read log_read_complete ticks []))) [ReadCalled (ReadErr TypeError)]"
    unfolding readEachFileMatching_ticks missing0_def [symmetric]
    using c0 by (auto simp: missing1_reports missing2_reports reader_of_def)
  show "caller (reader_of (readEachFileMatching (fs_missing (Reports TypeError)) (literal [] False)
       ''missing'' log_read log_read_complete [Traverse 0, Read 0] [])) =
       [ReadCalled (ReadErr TypeError)]"
    unfolding readEachFileMatching_ticks missing0_def [symmetric]
    by (simp add: missing1_def [symmetric] missing2_def [symmetric])
       (simp add: missing2_reports reader_of_def)
qed

subsection \<open>Sessions with different handlers\<close>

text \<open>
  The engine's variables do not depend on the handlers. Two sessions on the same tree under
  the same schedule keep every relation between the states of their handlers that the
  handlers keep.
\<close>

lemma corresponds_snoc:
  "corresponds fs ps sts \<Longrightarrow> fs_stat fs p = Inr st \<Longrightarrow> corresponds fs (ps @ [p]) (sts @ [st])"
  by (simp add: corresponds_def list_all2_appendI)

lemma foldl_onFileOrDirectory:
  "foldl (\<lambda>s' file. onFileOrDirectory (fullFilePath dir file) s') s names =
     s\<lparr>filesToCheck := filesToCheck s + int (length names),
       pending := pending s @ map (\<lambda>file. StatTask (fullFilePath dir file)) names\<rparr>"
  by (induction names arbitrary: s) (simp_all add: onFileOrDirectory_def)

lemma stat_callback_Inl:
  "stat_callback fh ch p (Inl e) s =
     s\<lparr>filesToCheck := filesToCheck s - 1, upper := fh (EntryErr e) (upper s)\<rparr>"
  by (simp add: stat_callback_def)

lemma stat_callback_dir:
  "isDirectory st \<Longrightarrow> stat_callback fh ch p (Inr st) s =
     s\<lparr>filesToCheck := filesToCheck s, pending := pending s @ [ReaddirTask p],
       checkedFiles := checkedFiles s @ [p], checkedStats := checkedStats s @ [st],
       upper := fh (Entry p st) (upper s)\<rparr>"
  by (simp add: stat_callback_def onDirectory_def)

lemma stat_callback_file:
  "\<not> isDirectory st \<Longrightarrow> stat_callback fh ch p (Inr st) s =
     s\<lparr>filesToCheck := filesToCheck s - 1,
       checkedFiles := checkedFiles s @ [p], checkedStats := checkedStats s @ [st],
       upper := (if filesToCheck s - 1 = 0
                 then ch (Complete (checkedFiles s @ [p]) (checkedStats s @ [st]))
                        (fh (Entry p st) (upper s))
                 else fh (Entry p st) (upper s))\<rparr>"
  by (simp add: stat_callback_def checkComplete_def)

lemma readdir_callback_Inl:
  "readdir_callback fh ch p (Inl e) s =
     s\<lparr>filesToCheck := filesToCheck s - 1, upper := fh (EntryErr e) (upper s)\<rparr>"
  by (simp add: readdir_callback_def)

lemma readdir_callback_Inr:
  "readdir_callback fh ch p (Inr names) s =
     s\<lparr>filesToCheck := filesToCheck s - 1 + int (length names),
       pending := pending s @ map (\<lambda>file. StatTask (fullFilePath p file)) names,
       upper := (if filesToCheck s - 1 + int (length names) = 0
                 then ch (Complete (checkedFiles s) (checkedStats s)) (upper s)
                 else upper s)\<rparr>"
  by (simp add: readdir_callback_def checkComplete_def foldl_onFileOrDirectory)

lemmas callback_simps = stat_callback_Inl stat_callback_dir stat_callback_file
  readdir_callback_Inl readdir_callback_Inr

lemma deliver_rel:
  assumes eq: "engine_of s1 = engine_of s2"
    and inv: "corresponds fs (checkedFiles s1) (checkedStats s1)"
    and R: "R (upper s1) (upper s2)"
    and fh: "\<And>arg u1 u2. valid_entry fs arg \<Longrightarrow> R u1 u2 \<Longrightarrow> R (fh1 arg u1) (fh2 arg u2)"
    and ch: "\<And>arg u1 u2. valid_complete fs arg \<Longrightarrow> R u1 u2 \<Longrightarrow> R (ch1 arg u1) (ch2 arg u2)"
  shows "engine_of (deliver fs fh1 ch1 t s1) = engine_of (deliver fs fh2 ch2 t s2) \<and>
         corresponds fs (checkedFiles (deliver fs fh1 ch1 t s1)) (checkedStats (deliver fs fh1 ch1 t s1)) \<and>
         R (upper (deliver fs fh1 ch1 t s1)) (upper (deliver fs fh2 ch2 t s2))"
proof (cases t)
  case (StatTask p)
  show ?thesis
  proof (cases "fs_stat fs p")
    case (Inl e)
    with StatTask eq inv R fh [of "EntryErr e"] show ?thesis
      by (simp add: engine_of_def callback_simps)
  next
    case (Inr st)
    have c: "corresponds fs (checkedFiles s1 @ [p]) (checkedStats s1 @ [st])"
      using inv Inr by (rule corresponds_snoc)
    have r: "R (fh1 (Entry p st) (upper s1)) (fh2 (Entry p st) (upper s2))"
      using Inr R by (intro fh) simp_all
    show ?thesis
    proof (cases "isDirectory st")
      case True
      with StatTask Inr eq c r show ?thesis
        by (simp add: engine_of_def callback_simps)
    next
      case False
      from c r have "R (ch1 (Complete (checkedFiles s1 @ [p]) (checkedStats s1 @ [st]))
                          (fh1 (Entry p st) (upper s1)))
                       (ch2 (Complete (checkedFiles s1 @ [p]) (checkedStats s1 @ [st]))
                          (fh2 (Entry p st) (upper s2)))"
        by (intro ch) simp_all
      with False StatTask Inr eq c r show ?thesis
        by (simp add: engine_of_def callback_simps)
    qed
  qed
next
  case (ReaddirTask p)
  show ?thesis
  proof (cases "fs_readdir fs p")
    case (Inl e)
    with ReaddirTask eq inv R fh [of "EntryErr e"] show ?thesis
      by (simp add: engine_of_def callback_simps)
  next
    case (Inr names)
    from inv R have "R (ch1 (Complete (checkedFiles s1) (checkedStats s1)) (upper s1))
                       (ch2 (Complete (checkedFiles s1) (checkedStats s1)) (upper s2))"
      by (intro ch) simp_all
    with ReaddirTask Inr eq inv R show ?thesis
      by (simp add: engine_of_def callback_simps)
  qed
qed

lemma step_rel:
  assumes eq: "engine_of s1 = engine_of s2"
    and inv: "corresponds fs (checkedFiles s1) (checkedStats s1)"
    and R: "R (upper s1) (upper s2)"
    and fh: "\<And>arg u1 u2. valid_entry fs arg \<Longrightarrow> R u1 u2 \<Longrightarrow> R (fh1 arg u1) (fh2 arg u2)"
    and ch: "\<And>arg u1 u2. valid_complete fs arg \<Longrightarrow> R u1 u2 \<Longrightarrow> R (ch1 arg u1) (ch2 arg u2)"
  shows "engine_of (step fs fh1 ch1 i s1) = engine_of (step fs fh2 ch2 i s2) \<and>
         corresponds fs (checkedFiles (step fs fh1 ch1 i s1)) (checkedStats (step fs fh1 ch1 i s1)) \<and>
         R (upper (step fs fh1 ch1 i s1)) (upper (step fs fh2 ch2 i s2))"
proof (cases "i < length (pending s1)")
  case False
  with eq inv R show ?thesis by (simp add: step_def engine_of_def)
next
  case True
  let ?rest = "take i (pending s1) @ drop (Suc i) (pending s1)"
  have p: "pending s2 = pending s1" using eq by (simp add: engine_of_def)
  have "engine_of (deliver fs fh1 ch1 (pending s1 ! i) (s1\<lparr>pending := ?rest\<rparr>)) =
        engine_of (deliver fs fh2 ch2 (pending s1 ! i) (s2\<lparr>pending := ?rest\<rparr>)) \<and>
        corresponds fs (checkedFiles (deliver fs fh1 ch1 (pending s1 ! i) (s1\<lparr>pending := ?rest\<rparr>)))
           (checkedStats (deliver fs fh1 ch1 (pending s1 ! i) (s1\<lparr>pending := ?rest\<rparr>))) \<and>
        R (upper (deliver fs fh1 ch1 (pending s1 ! i) (s1\<lparr>pending := ?rest\<rparr>)))
          (upper (deliver fs fh2 ch2 (pending s1 ! i) (s2\<lparr>pending := ?rest\<rparr>)))"
  proof (rule deliver_rel [where R = R])
    show "engine_of (s1\<lparr>pending := ?rest\<rparr>) = engine_of (s2\<lparr>pending := ?rest\<rparr>)"
      using eq by (simp add: engine_of_def)
    show "corresponds fs (checkedFiles (s1\<lparr>pending := ?rest\<rparr>)) (checkedStats (s1\<lparr>pending := ?rest\<rparr>))"
      using inv by simp
    show "R (upper (s1\<lparr>pending := ?rest\<rparr>)) (upper (s2\<lparr>pending := ?rest\<rparr>))"
      using R by simp
  qed (fact fh ch)+
  with True p show ?thesis by (simp add: step_def)
qed

lemma run_rel:
  assumes fh: "\<And>arg u1 u2. valid_entry fs arg \<Longrightarrow> R u1 u2 \<Longrightarrow> R (fh1 arg u1) (fh2 arg u2)"
    and ch: "\<And>arg u1 u2. valid_complete fs arg \<Longrightarrow> R u1 u2 \<Longrightarrow> R (ch1 arg u1) (ch2 arg u2)"
  shows "engine_of s1 = engine_of s2 \<Longrightarrow> corresponds fs (checkedFiles s1) (checkedStats s1) \<Longrightarrow>
         R (upper s1) (upper s2) \<Longrightarrow>
         engine_of (run fs fh1 ch1 sched s1) = engine_of (run fs fh2 ch2 sched s2) \<and>
         corresponds fs (checkedFiles (run fs fh1 ch1 sched s1)) (checkedStats (run fs fh1 ch1 sched s1)) \<and>
         R (upper (run fs fh1 ch1 sched s1)) (upper (run fs fh2 ch2 sched s2))"
proof (induction sched arbitrary: s1 s2)
  case Nil
  then show ?case by simp
next
  case (Cons i sched)
  have "engine_of (step fs fh1 ch1 i s1) = engine_of (step fs fh2 ch2 i s2) \<and>
         corresponds fs (checkedFiles (step fs fh1 ch1 i s1)) (checkedStats (step fs fh1 ch1 i s1)) \<and>
         R (upper (step fs fh1 ch1 i s1)) (upper (step fs fh2 ch2 i s2))"
    using Cons.prems by (rule step_rel [where R = R]) (fact fh ch)+
  then show ?case by (simp add: Cons.IH)
qed

lemma start_rel:
  "engine_of (eachFileOrDirectory_start dir u1) = engine_of (eachFileOrDirectory_start dir u2) \<and>
   corresponds fs (checkedFiles (eachFileOrDirectory_start dir u1))
     (checkedStats (eachFileOrDirectory_start dir u1)) \<and>
   upper (eachFileOrDirectory_start dir u) = u"
  by (simp add: eachFileOrDirectory_start_def onFileOrDirectory_def engine_of_def corresponds_def)

lemma session_rel:
  assumes fh: "\<And>arg u1 u2. valid_entry fs arg \<Longrightarrow> R u1 u2 \<Longrightarrow> R (fh1 arg u1) (fh2 arg u2)"
    and ch: "\<And>arg u1 u2. valid_complete fs arg \<Longrightarrow> R u1 u2 \<Longrightarrow> R (ch1 arg u1) (ch2 arg u2)"
    and R: "R u1 u2"
  shows "engine_of (eachFileOrDirectory fs dir fh1 ch1 sched u1) =
           engine_of (eachFileOrDirectory fs dir fh2 ch2 sched u2) \<and>
         corresponds fs (checkedFiles (eachFileOrDirectory fs dir fh1 ch1 sched u1))
           (checkedStats (eachFileOrDirectory fs dir fh1 ch1 sched u1)) \<and>
         R (upper (eachFileOrDirectory fs dir fh1 ch1 sched u1))
           (upper (eachFileOrDirectory fs dir fh2 ch2 sched u2))"
  unfolding eachFileOrDirectory_def
  using start_rel [of dir u1 u2 fs] R
  by (intro run_rel [where R = R, OF fh ch]) (simp_all add: start_rel)

subsection \<open>The pattern filter against filtering from outside\<close>











subsection \<open>Lists that correspond position by position\<close>

lemma collector_handler_inv:
  assumes "\<And>arg u. valid_entry fs arg \<Longrightarrow> Q u \<Longrightarrow> Q (callback arg u)"
    and "valid_entry fs arg" and "collector_inv fs Q c"
  shows "collector_inv fs Q (eachFile_handler callback arg c)"
proof (cases arg)
  case (EntryErr e)
  with assms(1) [of arg "outer c"] assms(2,3) show ?thesis
    by (simp add: collector_inv_def eachFile_handler_def)
next
  case (Entry f st)
  with assms(1) [of arg "outer c"] assms(2,3) show ?thesis
    by (simp add: collector_inv_def eachFile_handler_def corresponds_snoc)
qed

lemma collector_complete_inv:
  assumes "\<And>arg u. valid_complete fs arg \<Longrightarrow> Q u \<Longrightarrow> Q (completeHandler arg u)"
    and "collector_inv fs Q c"
  shows "collector_inv fs Q (eachFile_complete completeHandler arg c)"
proof (cases arg)
  case (CompleteErr e)
  with assms(1) [of arg "outer c"] assms(2) show ?thesis
    by (simp add: collector_inv_def eachFile_complete_def)
next
  case (Complete ps sts)
  with assms(1) [of "Complete (files c) (stats c)" "outer c"] assms(2) show ?thesis
    by (simp add: collector_inv_def eachFile_complete_def)
qed

lemma matcher_handler_inv:
  assumes "\<And>arg u. valid_entry fs arg \<Longrightarrow> Q u \<Longrightarrow> Q (callback arg u)"
    and "valid_entry fs arg" and "matcher_inv fs Q c"
  shows "matcher_inv fs Q (eachFileMatching_handler callback arg c)"
proof (cases arg)
  case (EntryErr e)
  with assms(1) [of arg "outerMatch c"] assms(2,3) show ?thesis
    by (simp add: matcher_inv_def eachFileMatching_handler_def)
next
  case (Entry f st)
  with assms(1) [of arg "outerMatch c"] assms(2,3) show ?thesis
    by (simp add: matcher_inv_def eachFileMatching_handler_def corresponds_snoc Let_def
        split: prod.splits)
qed

lemma matcher_complete_inv:
  assumes "\<And>arg u. valid_complete fs arg \<Longrightarrow> Q u \<Longrightarrow> Q (completeHandler arg u)"
    and "matcher_inv fs Q c"
  shows "matcher_inv fs Q (eachFileMatching_complete completeHandler arg c)"
proof (cases arg)
  case (CompleteErr e)
  with assms(1) [of arg "outerMatch c"] assms(2) show ?thesis
    by (simp add: matcher_inv_def eachFileMatching_complete_def)
next
  case (Complete ps sts)
  with assms(1) [of "Complete (matchedFiles c) (matchedStats c)" "outerMatch c"] assms(2)
  show ?thesis
    by (simp add: matcher_inv_def eachFileMatching_complete_def)
qed

lemma session_inv:
  assumes fh: "\<And>arg u. valid_entry fs arg \<Longrightarrow> Q u \<Longrightarrow> Q (fh arg u)"
    and ch: "\<And>arg u. valid_complete fs arg \<Longrightarrow> Q u \<Longrightarrow> Q (ch arg u)"
    and Q: "Q u"
  shows "corresponds fs (checkedFiles (eachFileOrDirectory fs dir fh ch sched u))
           (checkedStats (eachFileOrDirectory fs dir fh ch sched u)) \<and>
         Q (upper (eachFileOrDirectory fs dir fh ch sched u))"
  using session_rel [where R = "\<lambda>u1 u2. Q u2" and fs = fs and ?fh1.0 = fh and ?fh2.0 = fh
      and ?ch1.0 = ch and ?ch2.0 = ch and ?u1.0 = u and ?u2.0 = u and dir = dir and sched = sched]
    fh ch Q
  by blast

lemma log_entry_ok: "list_all (payload_ok fs) u \<Longrightarrow> list_all (payload_ok fs) (log_entry arg u)"
  by (simp add: log_entry_def)

lemma log_complete_ok:
  "valid_complete fs arg \<Longrightarrow> list_all (payload_ok fs) u \<Longrightarrow>
     list_all (payload_ok fs) (log_complete arg u)"
  by (cases arg) (simp_all add: log_complete_def)

lemma engine_lists:
  "corresponds fs (checkedFiles (eachFileOrDirectory fs dir fh ch sched u))
     (checkedStats (eachFileOrDirectory fs dir fh ch sched u))"
  using session_inv [where Q = "\<lambda>u. True" and fs = fs and fh = fh and ch = ch] by simp

lemma engine_payload:
  "list_all (payload_ok fs) (upper (eachFileOrDirectory fs dir log_entry log_complete sched []))"
  using session_inv [where Q = "list_all (payload_ok fs)" and fs = fs and fh = log_entry
      and ch = log_complete and u = "[]" and dir = dir and sched = sched]
    log_entry_ok log_complete_ok
  by simp

lemma eachFile_inv:
  assumes cb: "\<And>arg u. valid_entry fs arg \<Longrightarrow> Q u \<Longrightarrow> Q (callback arg u)"
    and ch: "\<And>arg u. valid_complete fs arg \<Longrightarrow> Q u \<Longrightarrow> Q (completeHandler arg u)"
    and Q: "Q u"
  shows "collector_inv fs Q (upper (eachFile fs dir callback completeHandler sched u))"
proof -
  have "collector_inv fs Q (new_collector u)"
    using Q by (simp add: collector_inv_def new_collector_def corresponds_def)
  then show ?thesis
    unfolding eachFile_def
    using session_inv [where Q = "collector_inv fs Q" and fs = fs
        and fh = "eachFile_handler callback" and ch = "eachFile_complete completeHandler"
        and u = "new_collector u" and dir = dir and sched = sched]
      collector_handler_inv [where Q = Q and fs = fs and callback = callback, OF cb]
      collector_complete_inv [where Q = Q and fs = fs and completeHandler = completeHandler, OF ch]
    by blast
qed

lemma eachFileMatching_inv:
  assumes cb: "\<And>arg u. valid_entry fs arg \<Longrightarrow> Q u \<Longrightarrow> Q (callback arg u)"
    and ch: "\<And>arg u. valid_complete fs arg \<Longrightarrow> Q u \<Longrightarrow> Q (completeHandler arg u)"
    and Q: "Q u"
  shows "collector_inv fs (matcher_inv fs Q)
           (upper (eachFileMatching fs P dir callback completeHandler sched u))"
proof -
  have "matcher_inv fs Q (new_matcher P u)"
    using Q by (simp add: matcher_inv_def new_matcher_def corresponds_def)
  then show ?thesis
    unfolding eachFileMatching_def
    using eachFile_inv [where Q = "matcher_inv fs Q" and fs = fs
        and callback = "eachFileMatching_handler callback"
        and completeHandler = "eachFileMatching_complete completeHandler"
        and u = "new_matcher P u" and dir = dir and sched = sched]
      matcher_handler_inv [where Q = Q and fs = fs and callback = callback, OF cb]
      matcher_complete_inv [where Q = Q and fs = fs and completeHandler = completeHandler, OF ch]
    by blast
qed

lemma reader_handler_inv:
  assumes "valid_entry fs arg" and "reader_inv fs Q r"
  shows "reader_inv fs Q (readEachFileMatching_handler fs arg r)"
proof (cases arg)
  case (EntryErr e)
  with assms show ?thesis
    by (cases "fs_readFile_undefined fs")
      (simp_all add: reader_inv_def readEachFileMatching_handler_def)
next
  case (Entry f st)
  with assms show ?thesis
    by (simp add: reader_inv_def readEachFileMatching_handler_def)
qed

lemma reader_complete_inv:
  assumes "\<And>arg u. valid_read_complete fs arg \<Longrightarrow> Q u \<Longrightarrow> Q (completeHandler arg u)"
    and "reader_inv fs Q r"
  shows "reader_inv fs Q (readEachFileMatching_complete completeHandler arg r)"
proof (cases arg)
  case (CompleteErr e)
  with assms(1) [of "ReadCompleteErr e" "caller r"] assms(2) show ?thesis
    by (simp add: reader_inv_def readEachFileMatching_complete_def)
next
  case (Complete ps sts)
  with assms(1) [of "ReadComplete (read_files r) (read_stats r) (read_contents r)" "caller r"]
    assms(2)
  show ?thesis
    by (simp add: reader_inv_def readEachFileMatching_complete_def)
qed

lemma contents_correspond_snoc:
  "contents_correspond fs ps cs \<Longrightarrow> fs_readFile fs p = Inr c \<Longrightarrow>
     contents_correspond fs (ps @ [p]) (cs @ [c])"
  by (simp add: contents_correspond_def list_all2_appendI)

lemma deliver_read_inv:
  assumes cb: "\<And>arg u. Q u \<Longrightarrow> Q (callback arg u)"
    and t: "valid_read_task fs t" and r: "reader_inv fs Q r"
  shows "reader_inv fs Q (deliver_read fs callback t r)"
proof (cases t)
  case (ReadFileTask f st)
  show ?thesis
  proof (cases "fs_readFile fs f")
    case (Inl e)
    with ReadFileTask r cb [of "caller r"] show ?thesis
      by (simp add: reader_inv_def readFile_callback_def)
  next
    case (Inr c)
    with ReadFileTask r t cb [of "caller r"] show ?thesis
      by (simp add: reader_inv_def readFile_callback_def corresponds_snoc contents_correspond_snoc)
  qed
next
  case ReadFileUndefinedTask
  with r cb [of "caller r"] show ?thesis
    by (cases "fs_readFile_undefined fs") (simp_all add: reader_inv_def)
qed

lemma list_all_remove_nth:
  "list_all P xs \<Longrightarrow> list_all P (take i xs @ drop (Suc i) xs)"
  by (auto simp: list_all_iff dest: in_set_takeD in_set_dropD)

lemma read_step_inv:
  assumes cb: "\<And>arg u. Q u \<Longrightarrow> Q (callback arg u)"
    and r: "reader_inv fs Q r"
  shows "reader_inv fs Q (read_step fs callback i r)"
proof (cases "i < length (reading r)")
  case False
  with r show ?thesis by (simp add: read_step_def)
next
  case True
  from r have all: "list_all (valid_read_task fs) (reading r)"
    by (simp add: reader_inv_def)
  with True have t: "valid_read_task fs (reading r ! i)"
    by (simp add: list_all_length)
  from r all have "reader_inv fs Q (r\<lparr>reading := take i (reading r) @ drop (Suc i) (reading r)\<rparr>)"
    using list_all_remove_nth [OF all, of i] by (simp add: reader_inv_def)
  with cb t have "reader_inv fs Q (deliver_read fs callback (reading r ! i)
      (r\<lparr>reading := take i (reading r) @ drop (Suc i) (reading r)\<rparr>))"
    by (rule deliver_read_inv)
  with True show ?thesis by (simp add: read_step_def)
qed

lemma reader_fileHandler_inv:
  assumes "valid_entry fs arg" and "collector_inv fs (matcher_inv fs (reader_inv fs Q)) c"
  shows "collector_inv fs (matcher_inv fs (reader_inv fs Q)) (reader_fileHandler fs arg c)"
  unfolding reader_fileHandler_def
  using assms
  by (intro collector_handler_inv [where fs = fs] matcher_handler_inv [where fs = fs]
      reader_handler_inv)

lemma reader_completeHandler_inv:
  assumes "\<And>arg u. valid_read_complete fs arg \<Longrightarrow> Q u \<Longrightarrow> Q (completeHandler arg u)"
    and "collector_inv fs (matcher_inv fs (reader_inv fs Q)) c"
  shows "collector_inv fs (matcher_inv fs (reader_inv fs Q))
           (reader_completeHandler completeHandler arg c)"
  unfolding reader_completeHandler_def
  using assms
  by (intro collector_complete_inv [where fs = fs] matcher_complete_inv [where fs = fs]
      reader_complete_inv)

lemma tick_step_inv:
  assumes cb: "\<And>arg u. Q u \<Longrightarrow> Q (callback arg u)"
    and ch: "\<And>arg u. valid_read_complete fs arg \<Longrightarrow> Q u \<Longrightarrow> Q (completeHandler arg u)"
    and s: "read_session_inv fs Q s"
  shows "read_session_inv fs Q (tick_step fs callback completeHandler t s)"
proof (cases "uncaught (reader_of s) \<noteq> None")
  case True
  with s show ?thesis by (simp add: tick_step_def)
next
  case False
  show ?thesis
  proof (cases t)
    case (Traverse i)
    let ?fh = "reader_fileHandler fs" and ?ch = "reader_completeHandler completeHandler"
    have "engine_of (step fs ?fh ?ch i s) = engine_of (step fs ?fh ?ch i s) \<and>
          corresponds fs (checkedFiles (step fs ?fh ?ch i s)) (checkedStats (step fs ?fh ?ch i s)) \<and>
          collector_inv fs (matcher_inv fs (reader_inv fs Q)) (upper (step fs ?fh ?ch i s))"
    proof (rule step_rel [where R = "\<lambda>u1 u2. collector_inv fs (matcher_inv fs (reader_inv fs Q)) u2"])
      show "engine_of s = engine_of s" by simp
      show "corresponds fs (checkedFiles s) (checkedStats s)"
        using s by (simp add: read_session_inv_def)
      show "collector_inv fs (matcher_inv fs (reader_inv fs Q)) (upper s)"
        using s by (simp add: read_session_inv_def)
    qed (auto intro: reader_fileHandler_inv reader_completeHandler_inv ch)
    with False Traverse show ?thesis
      by (simp add: tick_step_def read_session_inv_def)
  next
    case (Read i)
    from s have "reader_inv fs Q (reader_of s)"
      by (simp add: read_session_inv_def collector_inv_def matcher_inv_def reader_of_def)
    with cb have "reader_inv fs Q (read_step fs callback i (reader_of s))"
      by (rule read_step_inv)
    with s False Read show ?thesis
      by (simp add: tick_step_def read_session_inv_def collector_inv_def matcher_inv_def
          reader_of_def map_reader_def)
  qed
qed

lemma run_ticks_inv:
  assumes cb: "\<And>arg u. Q u \<Longrightarrow> Q (callback arg u)"
    and ch: "\<And>arg u. valid_read_complete fs arg \<Longrightarrow> Q u \<Longrightarrow> Q (completeHandler arg u)"
  shows "read_session_inv fs Q s \<Longrightarrow>
         read_session_inv fs Q (run_ticks fs callback completeHandler ticks s)"
proof (induction ticks arbitrary: s)
  case Nil
  then show ?case by simp
next
  case (Cons t ticks)
  from cb ch Cons.prems have "read_session_inv fs Q (tick_step fs callback completeHandler t s)"
    by (rule tick_step_inv)
  then show ?case by (simp add: Cons.IH)
qed

lemma readEachFileMatching_inv:
  assumes cb: "\<And>arg u. Q u \<Longrightarrow> Q (callback arg u)"
    and ch: "\<And>arg u. valid_read_complete fs arg \<Longrightarrow> Q u \<Longrightarrow> Q (completeHandler arg u)"
    and Q: "Q u"
  shows "reader_inv fs Q (reader_of (readEachFileMatching fs P dir callback completeHandler ticks u))"
proof -
  have "read_session_inv fs Q
          (eachFileOrDirectory_start dir (new_collector (new_matcher P (new_reader u))))"
    using Q
    by (simp add: read_session_inv_def collector_inv_def matcher_inv_def reader_inv_def
        eachFileOrDirectory_start_def onFileOrDirectory_def new_collector_def new_matcher_def
        new_reader_def corresponds_def contents_correspond_def)
  with cb ch have "read_session_inv fs Q
      (readEachFileMatching fs P dir callback completeHandler ticks u)"
    unfolding readEachFileMatching_def by (rule run_ticks_inv)
  then show ?thesis
    by (simp add: read_session_inv_def collector_inv_def matcher_inv_def reader_of_def)
qed

lemma sync_inv_walk:
  shows "onFileOrDirectorySync fs fh n p s = Some r \<Longrightarrow> sync_inv fs Q s \<Longrightarrow>
           \<forall>arg u. valid_entry fs arg \<longrightarrow> Q u \<longrightarrow> Q (outcome_state (fh arg u)) \<Longrightarrow>
           sync_inv fs Q (outcome_state r)"
    and "onDirectorySync fs fh n p s = Some r \<Longrightarrow> sync_inv fs Q s \<Longrightarrow>
           \<forall>arg u. valid_entry fs arg \<longrightarrow> Q u \<longrightarrow> Q (outcome_state (fh arg u)) \<Longrightarrow>
           sync_inv fs Q (outcome_state r)"
    and "forEachSync fs fh n p names s = Some r \<Longrightarrow> sync_inv fs Q s \<Longrightarrow>
           \<forall>arg u. valid_entry fs arg \<longrightarrow> Q u \<longrightarrow> Q (outcome_state (fh arg u)) \<Longrightarrow>
           sync_inv fs Q (outcome_state r)"
proof (induction fs fh n p s and fs fh n p s and fs fh n p names s arbitrary: r and r and r
    rule: onFileOrDirectorySync_onDirectorySync_forEachSync.induct)
  case (1 fs fileHandler fileOrDirectory s)
  then show ?case by simp
next
  case (2 fs fileHandler fuel fileOrDirectory s)
  show ?case
  proof (cases "fs_stat fs fileOrDirectory")
    case (Inl e)
    with 2 show ?thesis by auto
  next
    case (Inr st)
    let ?s1 = "s\<lparr>checkedFilesSync := checkedFilesSync s @ [fileOrDirectory],
                   checkedStatsSync := checkedStatsSync s @ [st]\<rparr>"
    have c: "corresponds fs (checkedFilesSync ?s1) (checkedStatsSync ?s1)"
      using "2.prems"(2) Inr by (simp add: sync_inv_def corresponds_snoc)
    have q: "Q (outcome_state (fileHandler (Entry fileOrDirectory st) (upperSync s)))"
      using "2.prems"(2,3) Inr by (simp add: sync_inv_def)
    show ?thesis
    proof (cases "fileHandler (Entry fileOrDirectory st) (upperSync s)")
      case (Threw e u)
      with Inr "2.prems"(1) c q show ?thesis
        by (auto simp: sync_inv_def)
    next
      case (Returned u)
      with c q have i: "sync_inv fs Q (?s1\<lparr>upperSync := u\<rparr>)"
        by (simp add: sync_inv_def)
      show ?thesis
      proof (cases "isDirectory st")
        case True
        with Inr Returned "2.prems"(1)
        have "onDirectorySync fs fileHandler fuel fileOrDirectory (?s1\<lparr>upperSync := u\<rparr>) = Some r"
          by (simp add: Let_def)
        moreover from Returned
        have "fileHandler (Entry fileOrDirectory st) (upperSync ?s1) = Returned u"
          by simp
        ultimately show ?thesis
          using "2.IH" [OF Inr refl _ True _ i "2.prems"(3)] by blast
      next
        case False
        with Inr Returned "2.prems"(1) i show ?thesis by auto
      qed
    qed
  qed
next
  case (3 fs fileHandler fuel dir s)
  show ?case
  proof (cases "fs_readdir fs dir")
    case (Inl e)
    with 3 show ?thesis by auto
  next
    case (Inr names)
    with "3.prems"(1) have "forEachSync fs fileHandler fuel dir names s = Some r"
      by simp
    from "3.IH" [OF Inr this "3.prems"(2,3)] show ?thesis .
  qed
next
  case (4 fs fileHandler fuel dir s)
  then show ?case by auto
next
  case (5 fs fileHandler fuel dir name rest s)
  show ?case
  proof (cases "onFileOrDirectorySync fs fileHandler fuel (fullFilePath dir name) s")
    case None
    with "5.prems" show ?thesis by simp
  next
    case (Some r1)
    have i1: "sync_inv fs Q (outcome_state r1)"
      using "5.IH"(1) [OF Some "5.prems"(2,3)] .
    show ?thesis
    proof (cases r1)
      case (Threw e s')
      with Some "5.prems"(1) i1 show ?thesis by auto
    next
      case (Returned s')
      with Some "5.prems"(1) have "forEachSync fs fileHandler fuel dir rest s' = Some r"
        by simp
      from "5.IH"(2) [OF Some Returned this _ "5.prems"(3)] i1 Returned show ?thesis
        by simp
    qed
  qed
qed

lemma lift_outer_state: "outer (outcome_state (lift_outer r c)) = outcome_state r"
  by (cases r) (simp_all add: lift_outer_def)

lemma lift_outer_files:
  "files (outcome_state (lift_outer r c)) = files c \<and> stats (outcome_state (lift_outer r c)) = stats c"
  by (cases r) (simp_all add: lift_outer_def)

lemma lift_outerMatch_state: "outerMatch (outcome_state (lift_outerMatch r c)) = outcome_state r"
  by (cases r) (simp_all add: lift_outerMatch_def)

lemma lift_outerMatch_files:
  "matchedFiles (outcome_state (lift_outerMatch r c)) = matchedFiles c \<and>
   matchedStats (outcome_state (lift_outerMatch r c)) = matchedStats c"
  by (cases r) (simp_all add: lift_outerMatch_def)

lemma sync_collector_handler_inv:
  assumes "\<forall>arg u. valid_entry fs arg \<longrightarrow> Q u \<longrightarrow> Q (outcome_state (callback arg u))"
    and "valid_entry fs arg" and "collector_inv fs Q c"
  shows "collector_inv fs Q (outcome_state (eachFileSync_handler callback arg c))"
proof (cases arg)
  case (EntryErr e)
  with assms show ?thesis
    by (simp add: collector_inv_def eachFileSync_handler_def lift_outer_state lift_outer_files)
next
  case (Entry f st)
  with assms show ?thesis
    by (simp add: collector_inv_def eachFileSync_handler_def lift_outer_state lift_outer_files
        corresponds_snoc)
qed

lemma sync_matcher_handler_inv:
  assumes "\<forall>arg u. valid_entry fs arg \<longrightarrow> Q u \<longrightarrow> Q (outcome_state (callback arg u))"
    and "valid_entry fs arg" and "matcher_inv fs Q c"
  shows "matcher_inv fs Q (outcome_state (eachFileMatchingSync_handler callback arg c))"
proof (cases arg)
  case (EntryErr e)
  with assms show ?thesis
    by (simp add: matcher_inv_def eachFileMatchingSync_handler_def lift_outerMatch_state
        lift_outerMatch_files)
next
  case (Entry f st)
  with assms show ?thesis
    by (simp add: matcher_inv_def eachFileMatchingSync_handler_def lift_outerMatch_state
        lift_outerMatch_files corresponds_snoc Let_def split: prod.splits)
qed

lemma sync_reader_handler_inv:
  assumes "\<forall>arg u. Q u \<longrightarrow> Q (outcome_state (callback arg u))"
    and "valid_entry fs arg" and "reader_inv fs Q r"
  shows "reader_inv fs Q (outcome_state (readEachFileMatchingSync_handler fs callback arg r))"
proof (cases arg)
  case (EntryErr e)
  with assms show ?thesis
    by (simp add: readEachFileMatchingSync_handler_def)
next
  case (Entry f st)
  show ?thesis
  proof (cases "fs_readFile fs f")
    case (Inl e)
    with Entry assms show ?thesis
      by (simp add: readEachFileMatchingSync_handler_def)
  next
    case (Inr c)
    from assms(1) have q: "Q (caller r) \<Longrightarrow> Q (outcome_state (callback (ReadEntry f st c) (caller r)))"
      by blast
    show ?thesis
    proof (cases "callback (ReadEntry f st c) (caller r)")
      case (Returned u)
      with Inr Entry assms(2,3) q show ?thesis
        by (simp add: readEachFileMatchingSync_handler_def reader_inv_def corresponds_snoc
            contents_correspond_snoc)
    next
      case (Threw e u)
      with Inr Entry assms(2,3) q show ?thesis
        by (simp add: readEachFileMatchingSync_handler_def reader_inv_def corresponds_snoc
            contents_correspond_snoc)
    qed
  qed
qed

lemma eachFileOrDirectorySync_inv:
  assumes "eachFileOrDirectorySync fs dir fh fuel u = Some r"
    and "\<forall>arg u. valid_entry fs arg \<longrightarrow> Q u \<longrightarrow> Q (outcome_state (fh arg u))"
    and "Q u"
  shows "sync_inv fs Q (outcome_state r)"
proof -
  have "sync_inv fs Q \<lparr>checkedFilesSync = [], checkedStatsSync = [], upperSync = u\<rparr>"
    using assms(3) by (simp add: sync_inv_def corresponds_def)
  from assms(1) [unfolded eachFileOrDirectorySync_def] this assms(2) show ?thesis
    by (rule sync_inv_walk(1))
qed

lemma eachFileSync_inv:
  assumes "eachFileSync fs dir callback fuel u = Some r"
    and "\<forall>arg u. valid_entry fs arg \<longrightarrow> Q u \<longrightarrow> Q (outcome_state (callback arg u))"
    and "Q u"
  shows "collector_inv fs Q (upperSync (outcome_state r))"
proof -
  have "sync_inv fs (collector_inv fs Q) (outcome_state r)"
  proof (rule eachFileOrDirectorySync_inv)
    show "eachFileOrDirectorySync fs dir (eachFileSync_handler callback) fuel (new_collector u) = Some r"
      using assms(1) by (simp add: eachFileSync_def)
    show "\<forall>arg c. valid_entry fs arg \<longrightarrow> collector_inv fs Q c \<longrightarrow>
            collector_inv fs Q (outcome_state (eachFileSync_handler callback arg c))"
      using assms(2) by (blast intro: sync_collector_handler_inv)
    show "collector_inv fs Q (new_collector u)"
      using assms(3) by (simp add: collector_inv_def new_collector_def corresponds_def)
  qed
  then show ?thesis by (simp add: sync_inv_def)
qed

lemma eachFileMatchingSync_inv:
  assumes "eachFileMatchingSync fs P dir callback fuel u = Some r"
    and "\<forall>arg u. valid_entry fs arg \<longrightarrow> Q u \<longrightarrow> Q (outcome_state (callback arg u))"
    and "Q u"
  shows "matcher_inv fs Q (outer (upperSync (outcome_state r)))"
proof -
  have "collector_inv fs (matcher_inv fs Q) (upperSync (outcome_state r))"
  proof (rule eachFileSync_inv)
    show "eachFileSync fs dir (eachFileMatchingSync_handler callback) fuel (new_matcher P u) = Some r"
      using assms(1) by (simp add: eachFileMatchingSync_def)
    show "\<forall>arg c. valid_entry fs arg \<longrightarrow> matcher_inv fs Q c \<longrightarrow>
            matcher_inv fs Q (outcome_state (eachFileMatchingSync_handler callback arg c))"
      using assms(2) by (blast intro: sync_matcher_handler_inv)
    show "matcher_inv fs Q (new_matcher P u)"
      using assms(3) by (simp add: matcher_inv_def new_matcher_def corresponds_def)
  qed
  then show ?thesis by (simp add: collector_inv_def)
qed

lemma readEachFileMatchingSync_inv:
  assumes "readEachFileMatchingSync fs P dir callback fuel u = Some r"
  shows "reader_inv fs (\<lambda>u. True) (outerMatch (outer (upperSync (outcome_state r))))"
proof -
  have "matcher_inv fs (reader_inv fs (\<lambda>u. True)) (outer (upperSync (outcome_state r)))"
  proof (rule eachFileMatchingSync_inv)
    show "eachFileMatchingSync fs P dir (readEachFileMatchingSync_handler fs callback) fuel
            (new_reader u) = Some r"
      using assms(1) by (simp add: readEachFileMatchingSync_def)
    show "\<forall>arg c. valid_entry fs arg \<longrightarrow> reader_inv fs (\<lambda>u. True) c \<longrightarrow>
            reader_inv fs (\<lambda>u. True)
              (outcome_state (readEachFileMatchingSync_handler fs callback arg c))"
      by (blast intro: sync_reader_handler_inv)
    show "reader_inv fs (\<lambda>u. True) (new_reader u)"
      by (simp add: reader_inv_def new_reader_def corresponds_def contents_correspond_def)
  qed
  then show ?thesis by (simp add: matcher_inv_def)
qed

lemma log_read_ok:
  "list_all (read_payload_ok fs) u \<Longrightarrow> list_all (read_payload_ok fs) (log_read arg u)"
  by (simp add: log_read_def)

lemma log_read_complete_ok:
  "valid_read_complete fs arg \<Longrightarrow> list_all (read_payload_ok fs) u \<Longrightarrow>
     list_all (read_payload_ok fs) (log_read_complete arg u)"
  by (cases arg) (simp_all add: log_read_complete_def)

text \<open>
  C10: in every session of the four concurrent operations, under every schedule and at every
  moment, the engine's \<open>checkedFiles\<close> and \<open>checkedStats\<close>, the \<open>files\<close> and \<open>stats\<close> of
  \<^verbatim>\<open>eachFile\<close> and of \<^verbatim>\<open>eachFileMatching\<close>, and the \<open>files\<close>, \<open>stats\<close> and \<open>contents\<close> of
  \<^verbatim>\<open>readEachFileMatching\<close> correspond position by position (so they have equal length):
  the stat is the one the collaborator produces for the file at the same position, and so is
  the content. Every completion call a logging caller receives carries lists that correspond
  in this way. The same holds for the state a call of each sequential variant leaves behind,
  whether it returns or raises.
\<close>

theorem accumulated_lists_correspond:
  fixes callback :: "'u fileHandler" and completeHandler :: "'u completeHandler"
    and readCallback :: "'u readHandler" and readComplete :: "'u readCompleteHandler"
    and syncCallback :: "'u syncHandler" and syncReadCallback :: "'u syncReadHandler"
    and u :: 'u
  shows
  "corresponds fs (checkedFiles (eachFileOrDirectory fs dir callback completeHandler sched u))
     (checkedStats (eachFileOrDirectory fs dir callback completeHandler sched u)) \<and>
   list_all (payload_ok fs) (upper (eachFileOrDirectory fs dir log_entry log_complete sched [])) \<and>
   corresponds fs (files (upper (eachFile fs dir callback completeHandler sched u)))
     (stats (upper (eachFile fs dir callback completeHandler sched u))) \<and>
   list_all (payload_ok fs) (outer (upper (eachFile fs dir log_entry log_complete sched []))) \<and>
   corresponds fs
     (matchedFiles (outer (upper (eachFileMatching fs P dir callback completeHandler sched u))))
     (matchedStats (outer (upper (eachFileMatching fs P dir callback completeHandler sched u)))) \<and>
   list_all (payload_ok fs)
     (outerMatch (outer (upper (eachFileMatching fs P dir log_entry log_complete sched [])))) \<and>
   corresponds fs
     (read_files (reader_of (readEachFileMatching fs P dir readCallback readComplete ticks u)))
     (read_stats (reader_of (readEachFileMatching fs P dir readCallback readComplete ticks u))) \<and>
   contents_correspond fs
     (read_files (reader_of (readEachFileMatching fs P dir readCallback readComplete ticks u)))
     (read_contents (reader_of (readEachFileMatching fs P dir readCallback readComplete ticks u))) \<and>
   list_all (read_payload_ok fs)
     (caller (reader_of (readEachFileMatching fs P dir log_read log_read_complete ticks []))) \<and>
   (\<forall>r. eachFileOrDirectorySync fs dir syncCallback fuel u = Some r \<longrightarrow>
      corresponds fs (checkedFilesSync (outcome_state r)) (checkedStatsSync (outcome_state r))) \<and>
   (\<forall>r. eachFileSync fs dir syncCallback fuel u = Some r \<longrightarrow>
      corresponds fs (files (upperSync (outcome_state r))) (stats (upperSync (outcome_state r)))) \<and>
   (\<forall>r. eachFileMatchingSync fs P dir syncCallback fuel u = Some r \<longrightarrow>
      corresponds fs (matchedFiles (outer (upperSync (outcome_state r))))
        (matchedStats (outer (upperSync (outcome_state r))))) \<and>
   (\<forall>r. readEachFileMatchingSync fs P dir syncReadCallback fuel u = Some r \<longrightarrow>
      corresponds fs (read_files (outerMatch (outer (upperSync (outcome_state r)))))
        (read_stats (outerMatch (outer (upperSync (outcome_state r))))) \<and>
      contents_correspond fs (read_files (outerMatch (outer (upperSync (outcome_state r)))))
        (read_contents (outerMatch (outer (upperSync (outcome_state r))))))"
proof (intro conjI allI impI)
  show "corresponds fs (checkedFiles (eachFileOrDirectory fs dir callback completeHandler sched u))
     (checkedStats (eachFileOrDirectory fs dir callback completeHandler sched u))"
    by (rule engine_lists)
  show "list_all (payload_ok fs) (upper (eachFileOrDirectory fs dir log_entry log_complete sched []))"
    by (rule engine_payload)
  have "collector_inv fs (\<lambda>u. True) (upper (eachFile fs dir callback completeHandler sched u))"
    by (rule eachFile_inv) simp_all
  then show "corresponds fs (files (upper (eachFile fs dir callback completeHandler sched u)))
     (stats (upper (eachFile fs dir callback completeHandler sched u)))"
    by (simp add: collector_inv_def)
  have "collector_inv fs (list_all (payload_ok fs))
          (upper (eachFile fs dir log_entry log_complete sched []))"
    by (rule eachFile_inv) (simp_all add: log_entry_ok log_complete_ok)
  then show "list_all (payload_ok fs) (outer (upper (eachFile fs dir log_entry log_complete sched [])))"
    by (simp add: collector_inv_def)
  have "collector_inv fs (matcher_inv fs (\<lambda>u. True))
          (upper (eachFileMatching fs P dir callback completeHandler sched u))"
    by (rule eachFileMatching_inv) simp_all
  then show "corresponds fs
     (matchedFiles (outer (upper (eachFileMatching fs P dir callback completeHandler sched u))))
     (matchedStats (outer (upper (eachFileMatching fs P dir callback completeHandler sched u))))"
    by (simp add: collector_inv_def matcher_inv_def)
  have "collector_inv fs (matcher_inv fs (list_all (payload_ok fs)))
          (upper (eachFileMatching fs P dir log_entry log_complete sched []))"
    by (rule eachFileMatching_inv) (simp_all add: log_entry_ok log_complete_ok)
  then show "list_all (payload_ok fs)
     (outerMatch (outer (upper (eachFileMatching fs P dir log_entry log_complete sched []))))"
    by (simp add: collector_inv_def matcher_inv_def)
  have r: "reader_inv fs (\<lambda>u. True)
          (reader_of (readEachFileMatching fs P dir readCallback readComplete ticks u))"
    by (rule readEachFileMatching_inv) simp_all
  then show "corresponds fs
     (read_files (reader_of (readEachFileMatching fs P dir readCallback readComplete ticks u)))
     (read_stats (reader_of (readEachFileMatching fs P dir readCallback readComplete ticks u)))"
    by (simp add: reader_inv_def)
  from r show "contents_correspond fs
     (read_files (reader_of (readEachFileMatching fs P dir readCallback readComplete ticks u)))
     (read_contents (reader_of (readEachFileMatching fs P dir readCallback readComplete ticks u)))"
    by (simp add: reader_inv_def)
  have "reader_inv fs (list_all (read_payload_ok fs))
          (reader_of (readEachFileMatching fs P dir log_read log_read_complete ticks []))"
    by (rule readEachFileMatching_inv) (simp_all add: log_read_ok log_read_complete_ok)
  then show "list_all (read_payload_ok fs)
     (caller (reader_of (readEachFileMatching fs P dir log_read log_read_complete ticks [])))"
    by (simp add: reader_inv_def)
next
  fix r assume "eachFileOrDirectorySync fs dir syncCallback fuel u = Some r"
  then have "sync_inv fs (\<lambda>u. True) (outcome_state r)"
    by (rule eachFileOrDirectorySync_inv) simp_all
  then show "corresponds fs (checkedFilesSync (outcome_state r)) (checkedStatsSync (outcome_state r))"
    by (simp add: sync_inv_def)
next
  fix r assume "eachFileSync fs dir syncCallback fuel u = Some r"
  then have "collector_inv fs (\<lambda>u. True) (upperSync (outcome_state r))"
    by (rule eachFileSync_inv) simp_all
  then show "corresponds fs (files (upperSync (outcome_state r))) (stats (upperSync (outcome_state r)))"
    by (simp add: collector_inv_def)
next
  fix r assume "eachFileMatchingSync fs P dir syncCallback fuel u = Some r"
  then have "matcher_inv fs (\<lambda>u. True) (outer (upperSync (outcome_state r)))"
    by (rule eachFileMatchingSync_inv) simp_all
  then show "corresponds fs (matchedFiles (outer (upperSync (outcome_state r))))
        (matchedStats (outer (upperSync (outcome_state r))))"
    by (simp add: matcher_inv_def)
next
  fix r assume a: "readEachFileMatchingSync fs P dir syncReadCallback fuel u = Some r"
  from readEachFileMatchingSync_inv [OF a]
  show "corresponds fs (read_files (outerMatch (outer (upperSync (outcome_state r)))))
        (read_stats (outerMatch (outer (upperSync (outcome_state r)))))"
    by (simp add: reader_inv_def)
  from readEachFileMatchingSync_inv [OF a]
  show "contents_correspond fs (read_files (outerMatch (outer (upperSync (outcome_state r)))))
        (read_contents (outerMatch (outer (upperSync (outcome_state r)))))"
    by (simp add: reader_inv_def)
qed

lemma single_sync_returns:
  "eachFileOrDirectorySync fs_single ''f.txt'' log_entry_sync (Suc 0) [] \<noteq> None \<and>
   eachFileSync fs_single ''f.txt'' log_entry_sync (Suc 0) [] \<noteq> None \<and>
   eachFileMatchingSync fs_single (literal [] False) ''f.txt'' log_entry_sync (Suc 0) [] \<noteq> None \<and>
   readEachFileMatchingSync fs_single (literal [] False) ''f.txt'' log_read_sync (Suc 0) [] \<noteq> None"
  by (simp add: eachFileOrDirectorySync_def eachFileSync_def eachFileMatchingSync_def
      readEachFileMatchingSync_def fs_single_def file_stat_def log_entry_sync_def log_read_sync_def
      eachFileSync_handler_def eachFileMatchingSync_handler_def readEachFileMatchingSync_handler_def
      lift_outer_def lift_outerMatch_def new_collector_def new_matcher_def new_reader_def
      test_empty_word)

theorem accumulated_lists_correspond_witness:
  "(\<exists>r. eachFileOrDirectorySync fs_single ''f.txt'' log_entry_sync (Suc 0) [] = Some r \<and>
      corresponds fs_single (checkedFilesSync (outcome_state r)) (checkedStatsSync (outcome_state r))) \<and>
   (\<exists>r. eachFileSync fs_single ''f.txt'' log_entry_sync (Suc 0) [] = Some r \<and>
      corresponds fs_single (files (upperSync (outcome_state r)))
        (stats (upperSync (outcome_state r)))) \<and>
   (\<exists>r. eachFileMatchingSync fs_single (literal [] False) ''f.txt'' log_entry_sync (Suc 0) [] = Some r \<and>
      corresponds fs_single (matchedFiles (outer (upperSync (outcome_state r))))
        (matchedStats (outer (upperSync (outcome_state r))))) \<and>
   (\<exists>r. readEachFileMatchingSync fs_single (literal [] False) ''f.txt'' log_read_sync (Suc 0) [] = Some r \<and>
      corresponds fs_single (read_files (outerMatch (outer (upperSync (outcome_state r)))))
        (read_stats (outerMatch (outer (upperSync (outcome_state r))))) \<and>
      contents_correspond fs_single (read_files (outerMatch (outer (upperSync (outcome_state r)))))
        (read_contents (outerMatch (outer (upperSync (outcome_state r))))))"
proof -
  note t1 = accumulated_lists_correspond [where fs = fs_single and dir = "''f.txt''"
      and P = "literal [] False" and callback = log_entry and completeHandler = log_complete
      and readCallback = "\<lambda>a u. u" and readComplete = "\<lambda>a u. u" and sched = "[]" and ticks = "[]"
      and syncCallback = log_entry_sync and syncReadCallback = "\<lambda>a u. Returned u"
      and fuel = "Suc 0" and u = "[]"]
  note t2 = accumulated_lists_correspond [where fs = fs_single and dir = "''f.txt''"
      and P = "literal [] False" and callback = "\<lambda>a u. u" and completeHandler = "\<lambda>a u. u"
      and readCallback = log_read and readComplete = log_read_complete and sched = "[]"
      and ticks = "[]" and syncCallback = "\<lambda>a u. Returned u" and syncReadCallback = log_read_sync
      and fuel = "Suc 0" and u = "[]"]
  from single_sync_returns obtain r1 r2 r3 r4 where
    r1: "eachFileOrDirectorySync fs_single ''f.txt'' log_entry_sync (Suc 0) [] = Some r1" and
    r2: "eachFileSync fs_single ''f.txt'' log_entry_sync (Suc 0) [] = Some r2" and
    r3: "eachFileMatchingSync fs_single (literal [] False) ''f.txt'' log_entry_sync (Suc 0) [] = Some r3" and
    r4: "readEachFileMatchingSync fs_single (literal [] False) ''f.txt'' log_read_sync (Suc 0) [] = Some r4"
    by auto
  from t1 r1 have "corresponds fs_single (checkedFilesSync (outcome_state r1))
      (checkedStatsSync (outcome_state r1))"
    by blast
  moreover from t1 r2 have "corresponds fs_single (files (upperSync (outcome_state r2)))
        (stats (upperSync (outcome_state r2)))"
    by blast
  moreover from t1 r3 have "corresponds fs_single (matchedFiles (outer (upperSync (outcome_state r3))))
        (matchedStats (outer (upperSync (outcome_state r3))))"
    by blast
  moreover from t2 r4 have
    "corresponds fs_single (read_files (outerMatch (outer (upperSync (outcome_state r4)))))
        (read_stats (outerMatch (outer (upperSync (outcome_state r4))))) \<and>
     contents_correspond fs_single (read_files (outerMatch (outer (upperSync (outcome_state r4)))))
        (read_contents (outerMatch (outer (upperSync (outcome_state r4)))))"
    by blast
  ultimately show ?thesis
    using r1 r2 r3 r4 by blast
qed

subsection \<open>What the two modes visit\<close>

lemma reachable_self: "p \<in> reachable fs p"
  by (simp add: reachable_def)

lemma reachable_child:
  "q \<in> reachable fs root \<Longrightarrow> (q, q') \<in> child_rel fs \<Longrightarrow> q' \<in> reachable fs root"
  by (auto simp: reachable_def intro: rtrancl_into_rtrancl)

lemma reachable_unfold:
  "reachable fs p = insert p (\<Union>q \<in> child_rel fs `` {p}. reachable fs q)"
proof (intro equalityI subsetI)
  fix x assume "x \<in> reachable fs p"
  then have "(p, x) \<in> (child_rel fs)\<^sup>*" by (simp add: reachable_def)
  then show "x \<in> insert p (\<Union>q \<in> child_rel fs `` {p}. reachable fs q)"
    by (cases rule: converse_rtranclE) (auto simp: reachable_def)
next
  fix x assume "x \<in> insert p (\<Union>q \<in> child_rel fs `` {p}. reachable fs q)"
  then show "x \<in> reachable fs p"
    by (auto simp: reachable_def intro: converse_rtrancl_into_rtrancl)
qed

lemma children_file:
  "fs_stat fs p = Inr st \<Longrightarrow> \<not> isDirectory st \<Longrightarrow> child_rel fs `` {p} = {}"
  by (auto simp: child_rel_def)

lemma children_dir:
  "fs_stat fs p = Inr st \<Longrightarrow> isDirectory st \<Longrightarrow> fs_readdir fs p = Inr names \<Longrightarrow>
     child_rel fs `` {p} = fullFilePath p ` set names"
  by (auto simp: child_rel_def)

lemma reachable_file:
  "fs_stat fs p = Inr st \<Longrightarrow> \<not> isDirectory st \<Longrightarrow> reachable fs p = {p}"
  using reachable_unfold [of fs p] by (simp add: children_file)

lemma reachable_dir:
  "fs_stat fs p = Inr st \<Longrightarrow> isDirectory st \<Longrightarrow> fs_readdir fs p = Inr names \<Longrightarrow>
     reachable fs p = insert p (\<Union>name \<in> set names. reachable fs (fullFilePath p name))"
  using reachable_unfold [of fs p] by (simp add: children_dir)

lemma healthy_file:
  "fs_stat fs p = Inr st \<Longrightarrow> \<not> isDirectory st \<Longrightarrow> healthy fs p"
  by (simp add: healthy_def reachable_file probes_ok_def)

lemma healthy_dir:
  "fs_stat fs p = Inr st \<Longrightarrow> isDirectory st \<Longrightarrow> fs_readdir fs p = Inr names \<Longrightarrow>
     \<forall>name \<in> set names. healthy fs (fullFilePath p name) \<Longrightarrow> healthy fs p"
  by (auto simp: healthy_def reachable_dir probes_ok_def)

text \<open>What a returning sequential walk has visited.\<close>

lemma sync_returned_walk:
  shows "onFileOrDirectorySync fs fh n p s = Some (Returned s') \<Longrightarrow>
           set (checkedFilesSync s') = set (checkedFilesSync s) \<union> reachable fs p \<and> healthy fs p"
    and "onDirectorySync fs fh n p s = Some (Returned s') \<Longrightarrow>
           (\<exists>names. fs_readdir fs p = Inr names \<and>
              set (checkedFilesSync s') =
                set (checkedFilesSync s) \<union> (\<Union>name \<in> set names. reachable fs (fullFilePath p name)) \<and>
              (\<forall>name \<in> set names. healthy fs (fullFilePath p name)))"
    and "forEachSync fs fh n p names s = Some (Returned s') \<Longrightarrow>
           set (checkedFilesSync s') =
             set (checkedFilesSync s) \<union> (\<Union>name \<in> set names. reachable fs (fullFilePath p name)) \<and>
           (\<forall>name \<in> set names. healthy fs (fullFilePath p name))"
proof (induction fs fh n p s and fs fh n p s and fs fh n p names s arbitrary: s' and s' and s'
    rule: onFileOrDirectorySync_onDirectorySync_forEachSync.induct)
  case (1 fs fileHandler fileOrDirectory s)
  then show ?case by simp
next
  case (2 fs fileHandler fuel fileOrDirectory s)
  show ?case
  proof (cases "fs_stat fs fileOrDirectory")
    case (Inl e)
    with "2.prems" show ?thesis by simp
  next
    case (Inr st)
    let ?s1 = "s\<lparr>checkedFilesSync := checkedFilesSync s @ [fileOrDirectory],
                   checkedStatsSync := checkedStatsSync s @ [st]\<rparr>"
    show ?thesis
    proof (cases "fileHandler (Entry fileOrDirectory st) (upperSync ?s1)")
      case (Threw e u)
      with Inr "2.prems" show ?thesis by simp
    next
      case (Returned u)
      show ?thesis
      proof (cases "isDirectory st")
        case False
        with Inr Returned "2.prems" have "s' = ?s1\<lparr>upperSync := u\<rparr>"
          by simp
        with Inr False show ?thesis
          by (simp add: reachable_file healthy_file)
      next
        case True
        with Inr Returned "2.prems"
        have d: "onDirectorySync fs fileHandler fuel fileOrDirectory (?s1\<lparr>upperSync := u\<rparr>)
                   = Some (Returned s')"
          by (simp add: Let_def)
        from "2.IH" [OF Inr refl Returned True d] obtain names where
          n: "fs_readdir fs fileOrDirectory = Inr names" and
          v: "set (checkedFilesSync s') = set (checkedFilesSync (?s1\<lparr>upperSync := u\<rparr>)) \<union>
                (\<Union>name \<in> set names. reachable fs (fullFilePath fileOrDirectory name))" and
          h: "\<forall>name \<in> set names. healthy fs (fullFilePath fileOrDirectory name)"
          by blast
        from v show ?thesis
          using reachable_dir [OF Inr True n] healthy_dir [OF Inr True n h] by simp
      qed
    qed
  qed
next
  case (3 fs fileHandler fuel dir s)
  show ?case
  proof (cases "fs_readdir fs dir")
    case (Inl e)
    with "3.prems" show ?thesis by simp
  next
    case (Inr names)
    with "3.prems" have "forEachSync fs fileHandler fuel dir names s = Some (Returned s')"
      by simp
    from "3.IH" [OF Inr this] Inr show ?thesis by simp
  qed
next
  case (4 fs fileHandler fuel dir s)
  then show ?case by auto
next
  case (5 fs fileHandler fuel dir name rest s)
  show ?case
  proof (cases "onFileOrDirectorySync fs fileHandler fuel (fullFilePath dir name) s")
    case None
    with "5.prems" show ?thesis by simp
  next
    case (Some r1)
    show ?thesis
    proof (cases r1)
      case (Threw e s1)
      with Some "5.prems" show ?thesis by simp
    next
      case (Returned s1)
      with Some "5.prems" have r: "forEachSync fs fileHandler fuel dir rest s1 = Some (Returned s')"
        by simp
      from Some Returned
      have f: "onFileOrDirectorySync fs fileHandler fuel (fullFilePath dir name) s = Some (Returned s1)"
        by simp
      from "5.IH"(1) [OF f] "5.IH"(2) [OF Some Returned r] show ?thesis
        by auto
    qed
  qed
qed

lemma rest_subset: "set (take i xs @ drop (Suc i) xs) \<subseteq> set xs"
  by (auto dest: in_set_takeD in_set_dropD)

lemma rest_mem:
  assumes "i < length xs" and "x \<in> set xs" and "x \<noteq> xs ! i"
  shows "x \<in> set (take i xs @ drop (Suc i) xs)"
proof -
  from assms(1) have "xs = take i xs @ xs ! i # drop (Suc i) xs"
    by (rule id_take_nth_drop)
  then have "set xs = set (take i xs @ xs ! i # drop (Suc i) xs)"
    by simp
  with assms(2,3) show ?thesis by auto
qed

lemma covered_done:
  assumes "covered fs root [] chk"
  shows "set chk = reachable fs root"
proof
  from assms show "set chk \<subseteq> reachable fs root" by (simp add: covered_def)
  show "reachable fs root \<subseteq> set chk"
  proof
    fix x assume "x \<in> reachable fs root"
    then have "(root, x) \<in> (child_rel fs)\<^sup>*" by (simp add: reachable_def)
    then show "x \<in> set chk"
    proof (induction rule: rtrancl_induct)
      case base
      from assms show ?case by (simp add: covered_def)
    next
      case (step y z)
      with assms show ?case by (auto simp: covered_def)
    qed
  qed
qed

lemma covered_stat_file:
  assumes c: "covered fs root pend chk" and i: "i < length pend" and t: "pend ! i = StatTask p"
    and st: "fs_stat fs p = Inr st" and f: "\<not> isDirectory st"
  shows "covered fs root (take i pend @ drop (Suc i) pend) (chk @ [p])"
proof -
  let ?rest = "take i pend @ drop (Suc i) pend"
  from i t have pin: "StatTask p \<in> set pend" by (metis nth_mem)
  have sub: "set ?rest \<subseteq> set pend" by (rule rest_subset)
  have keep: "\<And>x. x \<in> set pend \<Longrightarrow> x \<noteq> StatTask p \<Longrightarrow> x \<in> set ?rest"
    using rest_mem [OF i] t by simp
  from c pin have pr: "p \<in> reachable fs root" by (auto simp: covered_def)
  from st f have nochild: "\<And>q. (p, q) \<notin> child_rel fs" by (auto simp: child_rel_def)
  show ?thesis
    unfolding covered_def
  proof (intro conjI allI impI ballI)
    show "set (chk @ [p]) \<subseteq> reachable fs root"
      using c pr by (simp add: covered_def)
    show "task_ok fs root t" if "t \<in> set ?rest" for t
      using that sub c by (auto simp: covered_def)
    show "root \<in> set (chk @ [p]) \<or> StatTask root \<in> set ?rest"
      using c keep [of "StatTask root"] by (auto simp: covered_def)
    show "ReaddirTask a \<in> set ?rest \<or> q \<in> set (chk @ [p]) \<or> StatTask q \<in> set ?rest"
      if "a \<in> set (chk @ [p])" and "(a, q) \<in> child_rel fs" for a q
    proof (cases "a = p")
      case True
      with that nochild show ?thesis by simp
    next
      case False
      with that have "a \<in> set chk" by simp
      with c that(2) have "ReaddirTask a \<in> set pend \<or> q \<in> set chk \<or> StatTask q \<in> set pend"
        by (simp add: covered_def)
      then show ?thesis
        using keep [of "ReaddirTask a"] keep [of "StatTask q"] by auto
    qed
  qed
qed

lemma covered_stat_dir:
  assumes c: "covered fs root pend chk" and i: "i < length pend" and t: "pend ! i = StatTask p"
    and st: "fs_stat fs p = Inr st" and d: "isDirectory st"
  shows "covered fs root (take i pend @ drop (Suc i) pend @ [ReaddirTask p]) (chk @ [p])"
proof -
  let ?rest = "take i pend @ drop (Suc i) pend"
  from i t have pin: "StatTask p \<in> set pend" by (metis nth_mem)
  have sub: "set ?rest \<subseteq> set pend" by (rule rest_subset)
  have keep: "\<And>x. x \<in> set pend \<Longrightarrow> x \<noteq> StatTask p \<Longrightarrow> x \<in> set ?rest"
    using rest_mem [OF i] t by simp
  from c pin have pr: "p \<in> reachable fs root" by (auto simp: covered_def)
  show ?thesis
    unfolding covered_def
  proof (intro conjI allI impI ballI)
    show "set (chk @ [p]) \<subseteq> reachable fs root"
      using c pr by (simp add: covered_def)
    show "task_ok fs root t"
      if "t \<in> set (take i pend @ drop (Suc i) pend @ [ReaddirTask p])" for t
      using that sub c pr st d by (auto simp: covered_def is_dir_def)
    show "root \<in> set (chk @ [p]) \<or>
          StatTask root \<in> set (take i pend @ drop (Suc i) pend @ [ReaddirTask p])"
      using c keep [of "StatTask root"] by (auto simp: covered_def)
    show "ReaddirTask a \<in> set (take i pend @ drop (Suc i) pend @ [ReaddirTask p]) \<or>
          q \<in> set (chk @ [p]) \<or>
          StatTask q \<in> set (take i pend @ drop (Suc i) pend @ [ReaddirTask p])"
      if "a \<in> set (chk @ [p])" and "(a, q) \<in> child_rel fs" for a q
    proof (cases "a = p")
      case True
      then show ?thesis by simp
    next
      case False
      with that have "a \<in> set chk" by simp
      with c that(2) have "ReaddirTask a \<in> set pend \<or> q \<in> set chk \<or> StatTask q \<in> set pend"
        by (simp add: covered_def)
      then show ?thesis
        using keep [of "ReaddirTask a"] keep [of "StatTask q"] by auto
    qed
  qed
qed

lemma covered_readdir:
  assumes c: "covered fs root pend chk" and i: "i < length pend" and t: "pend ! i = ReaddirTask p"
    and n: "fs_readdir fs p = Inr names"
  shows "covered fs root
           (take i pend @ drop (Suc i) pend @ map (\<lambda>name. StatTask (fullFilePath p name)) names) chk"
proof -
  let ?rest = "take i pend @ drop (Suc i) pend"
  let ?new = "map (\<lambda>name. StatTask (fullFilePath p name)) names"
  from i t have pin: "ReaddirTask p \<in> set pend" by (metis nth_mem)
  have sub: "set ?rest \<subseteq> set pend" by (rule rest_subset)
  have keep: "\<And>x. x \<in> set pend \<Longrightarrow> x \<noteq> ReaddirTask p \<Longrightarrow> x \<in> set ?rest"
    using rest_mem [OF i] t by simp
  from c pin have pr: "p \<in> reachable fs root" and pd: "is_dir fs p"
    by (auto simp: covered_def)
  from pd obtain st where st: "fs_stat fs p = Inr st" "isDirectory st"
    by (auto simp: is_dir_def)
  have kids: "(p, q) \<in> child_rel fs \<longleftrightarrow> q \<in> fullFilePath p ` set names" for q
    using children_dir [OF st n] by auto
  show ?thesis
    unfolding covered_def
  proof (intro conjI allI impI ballI)
    show "set chk \<subseteq> reachable fs root"
      using c by (simp add: covered_def)
    show "task_ok fs root t" if "t \<in> set (take i pend @ drop (Suc i) pend @ ?new)" for t
    proof (cases "t \<in> set ?rest")
      case True
      with sub c show ?thesis by (auto simp: covered_def)
    next
      case False
      with that obtain name where "name \<in> set names" "t = StatTask (fullFilePath p name)"
        by auto
      with kids pr show ?thesis
        by (auto intro: reachable_child)
    qed
    show "root \<in> set chk \<or> StatTask root \<in> set (take i pend @ drop (Suc i) pend @ ?new)"
      using c keep [of "StatTask root"] by (auto simp: covered_def)
    show "ReaddirTask a \<in> set (take i pend @ drop (Suc i) pend @ ?new) \<or> q \<in> set chk \<or>
          StatTask q \<in> set (take i pend @ drop (Suc i) pend @ ?new)"
      if "a \<in> set chk" and "(a, q) \<in> child_rel fs" for a q
    proof (cases "a = p")
      case True
      with that(2) kids have "StatTask q \<in> set ?new" by auto
      then show ?thesis by simp
    next
      case False
      from c that have "ReaddirTask a \<in> set pend \<or> q \<in> set chk \<or> StatTask q \<in> set pend"
        by (simp add: covered_def)
      then show ?thesis
        using keep [of "ReaddirTask a"] keep [of "StatTask q"] False by auto
    qed
  qed
qed

lemma covered_step:
  assumes h: "healthy fs root" and c: "covered fs root (pending s) (checkedFiles s)"
  shows "covered fs root (pending (step fs fh ch i s)) (checkedFiles (step fs fh ch i s))"
proof (cases "i < length (pending s)")
  case False
  with c show ?thesis by (simp add: step_def)
next
  case True
  then have tin: "pending s ! i \<in> set (pending s)" by simp
  with c have ok: "task_ok fs root (pending s ! i)" by (simp add: covered_def)
  show ?thesis
  proof (cases "pending s ! i")
    case (StatTask p)
    with ok h obtain st where st: "fs_stat fs p = Inr st"
      by (auto simp: healthy_def probes_ok_def)
    show ?thesis
    proof (cases "isDirectory st")
      case d: True
      from covered_stat_dir [OF c True StatTask st d] True StatTask st d show ?thesis
        by (simp add: step_def callback_simps)
    next
      case f: False
      from covered_stat_file [OF c True StatTask st f] True StatTask st f show ?thesis
        by (simp add: step_def callback_simps)
    qed
  next
    case (ReaddirTask p)
    with ok h obtain names where n: "fs_readdir fs p = Inr names"
      by (auto simp: healthy_def probes_ok_def is_dir_def)
    from covered_readdir [OF c True ReaddirTask n] True ReaddirTask n show ?thesis
      by (simp add: step_def callback_simps)
  qed
qed

lemma covered_run:
  assumes h: "healthy fs root"
  shows "covered fs root (pending s) (checkedFiles s) \<Longrightarrow>
         covered fs root (pending (run fs fh ch sched s)) (checkedFiles (run fs fh ch sched s))"
proof (induction sched arbitrary: s)
  case Nil
  then show ?case by simp
next
  case (Cons i sched)
  from h Cons.prems
  have "covered fs root (pending (step fs fh ch i s)) (checkedFiles (step fs fh ch i s))"
    by (rule covered_step)
  then show ?case by (simp add: Cons.IH)
qed

lemma covered_start:
  "covered fs root (pending (onFileOrDirectory root
       \<lparr>pending = [], filesToCheck = 0, checkedFiles = [], checkedStats = [], upper = u\<rparr>))
     (checkedFiles (onFileOrDirectory root
       \<lparr>pending = [], filesToCheck = 0, checkedFiles = [], checkedStats = [], upper = u\<rparr>))"
  by (simp add: covered_def onFileOrDirectory_def reachable_self)

lemma visited_append: "visited (xs @ ys) = visited xs @ visited ys"
  by (induction xs rule: visited.induct) simp_all

lemma deliver_visited:
  assumes "visited (upper s) = checkedFiles s"
  shows "visited (upper (deliver fs log_entry log_complete t s)) =
           checkedFiles (deliver fs log_entry log_complete t s)"
proof (cases t)
  case (StatTask p)
  show ?thesis
  proof (cases "fs_stat fs p")
    case (Inl e)
    with StatTask assms show ?thesis
      by (simp add: callback_simps log_entry_def visited_append)
  next
    case (Inr st)
    with StatTask assms show ?thesis
      by (cases "isDirectory st")
        (simp_all add: callback_simps log_entry_def log_complete_def visited_append)
  qed
next
  case (ReaddirTask p)
  with assms show ?thesis
    by (cases "fs_readdir fs p")
      (simp_all add: callback_simps log_entry_def log_complete_def visited_append)
qed

lemma run_visited:
  "visited (upper s) = checkedFiles s \<Longrightarrow>
     visited (upper (run fs log_entry log_complete sched s)) =
       checkedFiles (run fs log_entry log_complete sched s)"
proof (induction sched arbitrary: s)
  case Nil
  then show ?case by simp
next
  case (Cons i sched)
  have "visited (upper (step fs log_entry log_complete i s)) =
          checkedFiles (step fs log_entry log_complete i s)"
    using Cons.prems deliver_visited [of "s\<lparr>pending := take i (pending s) @ drop (Suc i) (pending s)\<rparr>"]
    by (simp add: step_def)
  then show ?case by (simp add: Cons.IH)
qed

lemma session_visited:
  "visited (upper (eachFileOrDirectory fs root log_entry log_complete sched [])) =
     checkedFiles (eachFileOrDirectory fs root log_entry log_complete sched [])"
  unfolding eachFileOrDirectory_def
  by (rule run_visited) (simp add: eachFileOrDirectory_start_def onFileOrDirectory_def)

lemma sync_visited_walk:
  shows "onFileOrDirectorySync fs fh n p s = Some r \<Longrightarrow> fh = log_entry_sync \<Longrightarrow>
           visited (upperSync s) = checkedFilesSync s \<Longrightarrow>
           visited (upperSync (outcome_state r)) = checkedFilesSync (outcome_state r)"
    and "onDirectorySync fs fh n p s = Some r \<Longrightarrow> fh = log_entry_sync \<Longrightarrow>
           visited (upperSync s) = checkedFilesSync s \<Longrightarrow>
           visited (upperSync (outcome_state r)) = checkedFilesSync (outcome_state r)"
    and "forEachSync fs fh n p names s = Some r \<Longrightarrow> fh = log_entry_sync \<Longrightarrow>
           visited (upperSync s) = checkedFilesSync s \<Longrightarrow>
           visited (upperSync (outcome_state r)) = checkedFilesSync (outcome_state r)"
proof (induction fs fh n p s and fs fh n p s and fs fh n p names s arbitrary: r and r and r
    rule: onFileOrDirectorySync_onDirectorySync_forEachSync.induct)
  case (1 fs fileHandler fileOrDirectory s)
  then show ?case by simp
next
  case (2 fs fileHandler fuel fileOrDirectory s)
  show ?case
  proof (cases "fs_stat fs fileOrDirectory")
    case (Inl e)
    with 2 show ?thesis by auto
  next
    case (Inr st)
    let ?s1 = "s\<lparr>checkedFilesSync := checkedFilesSync s @ [fileOrDirectory],
                   checkedStatsSync := checkedStatsSync s @ [st]\<rparr>"
    let ?u = "upperSync s @ [Called (Entry fileOrDirectory st)]"
    have h: "fileHandler (Entry fileOrDirectory st) (upperSync ?s1) = Returned ?u"
      using "2.prems"(2) by (simp add: log_entry_sync_def)
    have i: "visited (upperSync (?s1\<lparr>upperSync := ?u\<rparr>)) = checkedFilesSync (?s1\<lparr>upperSync := ?u\<rparr>)"
      using "2.prems"(3) by (simp add: visited_append)
    show ?thesis
    proof (cases "isDirectory st")
      case True
      with Inr h "2.prems"(1)
      have "onDirectorySync fs fileHandler fuel fileOrDirectory (?s1\<lparr>upperSync := ?u\<rparr>) = Some r"
        by (simp add: Let_def)
      from "2.IH" [OF Inr refl h True this "2.prems"(2) i] show ?thesis .
    next
      case False
      with Inr h "2.prems"(1) have "r = Returned (?s1\<lparr>upperSync := ?u\<rparr>)"
        by (simp add: Let_def)
      with i show ?thesis by simp
    qed
  qed
next
  case (3 fs fileHandler fuel dir s)
  show ?case
  proof (cases "fs_readdir fs dir")
    case (Inl e)
    with 3 show ?thesis by auto
  next
    case (Inr names)
    with "3.prems"(1) have "forEachSync fs fileHandler fuel dir names s = Some r"
      by simp
    from "3.IH" [OF Inr this "3.prems"(2,3)] show ?thesis .
  qed
next
  case (4 fs fileHandler fuel dir s)
  then show ?case by auto
next
  case (5 fs fileHandler fuel dir name rest s)
  show ?case
  proof (cases "onFileOrDirectorySync fs fileHandler fuel (fullFilePath dir name) s")
    case None
    with "5.prems" show ?thesis by simp
  next
    case (Some r1)
    have i1: "visited (upperSync (outcome_state r1)) = checkedFilesSync (outcome_state r1)"
      using "5.IH"(1) [OF Some "5.prems"(2,3)] .
    show ?thesis
    proof (cases r1)
      case (Threw e s')
      with Some "5.prems"(1) i1 show ?thesis by auto
    next
      case (Returned s')
      with Some "5.prems"(1) have "forEachSync fs fileHandler fuel dir rest s' = Some r"
        by simp
      from "5.IH"(2) [OF Some Returned this "5.prems"(2)] i1 Returned show ?thesis
        by simp
    qed
  qed
qed

lemma sync_session_visited:
  assumes "eachFileOrDirectorySync fs root log_entry_sync fuel [] = Some r"
  shows "visited (upperSync (outcome_state r)) = checkedFilesSync (outcome_state r)"
  using sync_visited_walk(1) [OF assms [unfolded eachFileOrDirectorySync_def] refl]
  by simp

lemma sync_returned_reachable:
  assumes "eachFileOrDirectorySync fs root fh fuel u = Some (Returned ss)"
  shows "set (checkedFilesSync ss) = reachable fs (if root = [] then ''./'' else root) \<and>
         healthy fs (if root = [] then ''./'' else root)"
  using sync_returned_walk(1) [OF assms [unfolded eachFileOrDirectorySync_def]] by simp

lemma quiescent_visits_reachable:
  assumes "healthy fs (if root = [] then ''./'' else root)"
    and "pending (eachFileOrDirectory fs root fh ch sched u) = []"
  shows "set (checkedFiles (eachFileOrDirectory fs root fh ch sched u)) =
           reachable fs (if root = [] then ''./'' else root)"
proof -
  let ?root = "if root = [] then ''./'' else root"
  let ?c = "eachFileOrDirectory fs root fh ch sched u"
  have "covered fs ?root (pending ?c) (checkedFiles ?c)"
    unfolding eachFileOrDirectory_def eachFileOrDirectory_start_def
    using assms(1) by (intro covered_run covered_start)
  with assms(2) show ?thesis
    by (simp add: covered_done)
qed

text \<open>
  A schedule that follows the sequential walk: whenever the sequential walk of a path
  returns, the engine can work off the pending probe of that path, and everything the probe
  leads to, and leave the rest of the pending operations as they were.
\<close>

lemma step_at_stat_file:
  assumes "pending c = front @ StatTask p # behind" and "fs_stat fs p = Inr st"
    and "\<not> isDirectory st"
  shows "pending (step fs fh ch (length front) c) = front @ behind"
  using assms by (simp add: step_def nth_append callback_simps)

lemma step_at_stat_dir:
  assumes "pending c = front @ StatTask p # behind" and "fs_stat fs p = Inr st"
    and "isDirectory st"
  shows "pending (step fs fh ch (length front) c) = (front @ behind) @ [ReaddirTask p]"
  using assms by (simp add: step_def nth_append callback_simps)

lemma step_at_readdir:
  assumes "pending c = front @ ReaddirTask p # behind" and "fs_readdir fs p = Inr names"
  shows "pending (step fs fh ch (length front) c) =
           (front @ behind) @ map (\<lambda>name. StatTask (fullFilePath p name)) names"
  using assms by (simp add: step_def nth_append callback_simps)

lemma depth_first_schedule:
  shows "onFileOrDirectorySync fs fhs n p s = Some (Returned s') \<Longrightarrow>
           \<forall>c front behind. pending c = front @ StatTask p # behind \<longrightarrow>
             (\<exists>sched. pending (run fs fh ch sched c) = front @ behind)"
    and "onDirectorySync fs fhs n p s = Some (Returned s') \<Longrightarrow>
           \<forall>c front behind. pending c = front @ ReaddirTask p # behind \<longrightarrow>
             (\<exists>sched. pending (run fs fh ch sched c) = front @ behind)"
    and "forEachSync fs fhs n p names s = Some (Returned s') \<Longrightarrow>
           \<forall>c front. pending c = front @ map (\<lambda>name. StatTask (fullFilePath p name)) names \<longrightarrow>
             (\<exists>sched. pending (run fs fh ch sched c) = front)"
proof (induction fs fhs n p s and fs fhs n p s and fs fhs n p names s
    arbitrary: s' and s' and s'
    rule: onFileOrDirectorySync_onDirectorySync_forEachSync.induct)
  case (1 fs fileHandler fileOrDirectory s)
  then show ?case by simp
next
  case (2 fs fileHandler fuel fileOrDirectory s)
  show ?case
  proof (cases "fs_stat fs fileOrDirectory")
    case (Inl e)
    with "2.prems" show ?thesis by simp
  next
    case (Inr st)
    let ?s1 = "s\<lparr>checkedFilesSync := checkedFilesSync s @ [fileOrDirectory],
                   checkedStatsSync := checkedStatsSync s @ [st]\<rparr>"
    show ?thesis
    proof (cases "fileHandler (Entry fileOrDirectory st) (upperSync ?s1)")
      case (Threw e u)
      with Inr "2.prems" show ?thesis by simp
    next
      case (Returned u)
      show ?thesis
      proof (cases "isDirectory st")
        case False
        show ?thesis
        proof (intro allI impI)
          fix c :: "'b engine" and front behind
          assume "pending c = front @ StatTask fileOrDirectory # behind"
          from step_at_stat_file [OF this Inr False]
          have "pending (run fs fh ch [length front] c) = front @ behind"
            by simp
          then show "\<exists>sched. pending (run fs fh ch sched c) = front @ behind" ..
        qed
      next
        case True
        with Inr Returned "2.prems"
        have d: "onDirectorySync fs fileHandler fuel fileOrDirectory (?s1\<lparr>upperSync := u\<rparr>)
                   = Some (Returned s')"
          by (simp add: Let_def)
        note ih = "2.IH" [OF Inr refl Returned True d]
        show ?thesis
        proof (intro allI impI)
          fix c :: "'b engine" and front behind
          assume "pending c = front @ StatTask fileOrDirectory # behind"
          from step_at_stat_dir [OF this Inr True]
          have "pending (step fs fh ch (length front) c) =
                  (front @ behind) @ ReaddirTask fileOrDirectory # []"
            by simp
          with ih obtain sched where
            "pending (run fs fh ch sched (step fs fh ch (length front) c)) = (front @ behind) @ []"
            by blast
          then have "pending (run fs fh ch (length front # sched) c) = front @ behind"
            by simp
          then show "\<exists>sched. pending (run fs fh ch sched c) = front @ behind" ..
        qed
      qed
    qed
  qed
next
  case (3 fs fileHandler fuel dir s)
  show ?case
  proof (cases "fs_readdir fs dir")
    case (Inl e)
    with "3.prems" show ?thesis by simp
  next
    case (Inr names)
    with "3.prems" have "forEachSync fs fileHandler fuel dir names s = Some (Returned s')"
      by simp
    note ih = "3.IH" [OF Inr this]
    show ?thesis
    proof (intro allI impI)
      fix c :: "'b engine" and front behind
      assume "pending c = front @ ReaddirTask dir # behind"
      from step_at_readdir [OF this Inr]
      have "pending (step fs fh ch (length front) c) =
              (front @ behind) @ map (\<lambda>name. StatTask (fullFilePath dir name)) names" .
      with ih obtain sched where
        "pending (run fs fh ch sched (step fs fh ch (length front) c)) = front @ behind"
        by blast
      then have "pending (run fs fh ch (length front # sched) c) = front @ behind"
        by simp
      then show "\<exists>sched. pending (run fs fh ch sched c) = front @ behind" ..
    qed
  qed
next
  case (4 fs fileHandler fuel dir s)
  show ?case
  proof (intro allI impI)
    fix c :: "'b engine" and front
    assume "pending c = front @ map (\<lambda>name. StatTask (fullFilePath dir name)) []"
    then have "pending (run fs fh ch [] c) = front" by simp
    then show "\<exists>sched. pending (run fs fh ch sched c) = front" ..
  qed
next
  case (5 fs fileHandler fuel dir name rest s)
  show ?case
  proof (cases "onFileOrDirectorySync fs fileHandler fuel (fullFilePath dir name) s")
    case None
    with "5.prems" show ?thesis by simp
  next
    case (Some r1)
    show ?thesis
    proof (cases r1)
      case (Threw e s1)
      with Some "5.prems" show ?thesis by simp
    next
      case (Returned s1)
      with Some "5.prems" have r: "forEachSync fs fileHandler fuel dir rest s1 = Some (Returned s')"
        by simp
      from Some Returned
      have f: "onFileOrDirectorySync fs fileHandler fuel (fullFilePath dir name) s = Some (Returned s1)"
        by simp
      note ih1 = "5.IH"(1) [OF f]
      note ih2 = "5.IH"(2) [OF Some Returned r]
      show ?thesis
      proof (intro allI impI)
        fix c :: "'b engine" and front
        assume "pending c = front @ map (\<lambda>name. StatTask (fullFilePath dir name)) (name # rest)"
        then have "pending c = front @ StatTask (fullFilePath dir name) #
            map (\<lambda>name. StatTask (fullFilePath dir name)) rest"
          by simp
        with ih1 obtain sched1 where
          s1: "pending (run fs fh ch sched1 c) =
                 front @ map (\<lambda>name. StatTask (fullFilePath dir name)) rest"
          by blast
        with ih2 obtain sched2 where
          "pending (run fs fh ch sched2 (run fs fh ch sched1 c)) = front"
          by blast
        then have "pending (run fs fh ch (sched1 @ sched2) c) = front"
          by (simp add: run_append)
        then show "\<exists>sched. pending (run fs fh ch sched c) = front" ..
      qed
    qed
  qed
qed

lemma returning_walk_can_finish:
  assumes "eachFileOrDirectorySync fs root fhs fuel us = Some (Returned ss)"
  shows "\<exists>sched. pending (eachFileOrDirectory fs root fh ch sched u) = []"
proof -
  let ?root = "if root = [] then ''./'' else root"
  have "pending (eachFileOrDirectory_start root u) = [] @ StatTask ?root # []"
    by (simp add: eachFileOrDirectory_start_def onFileOrDirectory_def)
  with depth_first_schedule(1) [OF assms [unfolded eachFileOrDirectorySync_def], of fh ch]
  obtain sched where "pending (run fs fh ch sched (eachFileOrDirectory_start root u)) = [] @ []"
    by blast
  then show ?thesis by (auto simp: eachFileOrDirectory_def)
qed

text \<open>
  On a tree with fewer than \<open>n\<close> levels on which no operation fails, the sequential walk
  with a handler that returns does return within the nesting \<open>n\<close>. A walk that gives a result
  within some nesting gives the same result within every deeper one.
\<close>

lemma level_0: "level fs p 0 = {p}"
  by (simp add: level_def)

lemma level_Suc: "level fs p (Suc n) = (\<Union>q \<in> child_rel fs `` {p}. level fs q n)"
proof (intro equalityI subsetI)
  fix x assume "x \<in> level fs p (Suc n)"
  then have "(p, x) \<in> child_rel fs ^^ Suc n"
    by (simp add: level_def)
  then obtain q where "(p, q) \<in> child_rel fs" and "(q, x) \<in> child_rel fs ^^ n"
    by (blast dest: relpow_Suc_D2)
  then show "x \<in> (\<Union>q \<in> child_rel fs `` {p}. level fs q n)"
    by (auto simp: level_def)
next
  fix x assume "x \<in> (\<Union>q \<in> child_rel fs `` {p}. level fs q n)"
  then obtain q where "(p, q) \<in> child_rel fs" and "(q, x) \<in> child_rel fs ^^ n"
    by (auto simp: level_def)
  then have "(p, x) \<in> child_rel fs ^^ Suc n"
    by (rule relpow_Suc_I2)
  then show "x \<in> level fs p (Suc n)"
    by (simp add: level_def)
qed

lemma healthy_child:
  assumes "healthy fs p" and "(p, q) \<in> child_rel fs"
  shows "healthy fs q"
proof -
  have "reachable fs q \<subseteq> reachable fs p"
    using assms(2) by (auto simp: reachable_def intro: converse_rtrancl_into_rtrancl)
  with assms(1) show ?thesis by (auto simp: healthy_def)
qed

lemma forEachSync_returns:
  assumes "\<And>name s. name \<in> set names \<Longrightarrow>
             \<exists>s'. onFileOrDirectorySync fs fh n (fullFilePath p name) s = Some (Returned s')"
  shows "\<exists>s'. forEachSync fs fh n p names s = Some (Returned s')"
  using assms
proof (induction names arbitrary: s)
  case Nil
  then show ?case by simp
next
  case (Cons name rest)
  from Cons.prems [of name s] obtain s1 where
    "onFileOrDirectorySync fs fh n (fullFilePath p name) s = Some (Returned s1)"
    by auto
  moreover from Cons.IH [of s1] Cons.prems obtain s2 where
    "forEachSync fs fh n p rest s1 = Some (Returned s2)"
    by auto
  ultimately show ?case by simp
qed

lemma healthy_walk_returns:
  assumes fh: "\<And>arg u. \<exists>u'. fh arg u = Returned u'"
  shows "healthy fs p \<Longrightarrow> level fs p n = {} \<Longrightarrow>
         \<exists>s'. onFileOrDirectorySync fs fh n p s = Some (Returned s')"
proof (induction n arbitrary: p s)
  case 0
  then show ?case by (simp add: level_0)
next
  case (Suc n)
  from Suc.prems(1) reachable_self [of p fs] have "probes_ok fs p"
    by (simp add: healthy_def)
  then obtain st where st: "fs_stat fs p = Inr st"
    and ls: "isDirectory st \<longrightarrow> (\<exists>names. fs_readdir fs p = Inr names)"
    by (auto simp: probes_ok_def)
  let ?s1 = "s\<lparr>checkedFilesSync := checkedFilesSync s @ [p],
                 checkedStatsSync := checkedStatsSync s @ [st]\<rparr>"
  from fh obtain u where u: "fh (Entry p st) (upperSync s) = Returned u"
    by blast
  show ?case
  proof (cases "isDirectory st")
    case False
    with st u show ?thesis by simp
  next
    case True
    with ls obtain names where names: "fs_readdir fs p = Inr names"
      by blast
    have kids: "child_rel fs `` {p} = fullFilePath p ` set names"
      using st True names by (rule children_dir)
    have "\<exists>s'. onFileOrDirectorySync fs fh n (fullFilePath p name) s0 = Some (Returned s')"
      if "name \<in> set names" for name s0
    proof (rule Suc.IH)
      from that kids have c: "(p, fullFilePath p name) \<in> child_rel fs"
        by auto
      with Suc.prems(1) show "healthy fs (fullFilePath p name)"
        by (rule healthy_child)
      from Suc.prems(2) c show "level fs (fullFilePath p name) n = {}"
        by (auto simp: level_Suc)
    qed
    then have "\<exists>s'. forEachSync fs fh n p names (?s1\<lparr>upperSync := u\<rparr>) = Some (Returned s')"
      by (rule forEachSync_returns)
    with st u True names show ?thesis by simp
  qed
qed

lemma deeper_walk:
  shows "onFileOrDirectorySync fs fh n p s = Some r \<Longrightarrow>
           onFileOrDirectorySync fs fh (n + k) p s = Some r"
    and "onDirectorySync fs fh n p s = Some r \<Longrightarrow>
           onDirectorySync fs fh (n + k) p s = Some r"
    and "forEachSync fs fh n p names s = Some r \<Longrightarrow>
           forEachSync fs fh (n + k) p names s = Some r"
proof (induction fs fh n p s and fs fh n p s and fs fh n p names s arbitrary: r and r and r
    rule: onFileOrDirectorySync_onDirectorySync_forEachSync.induct)
  case (1 fs fileHandler fileOrDirectory s)
  then show ?case by simp
next
  case (2 fs fileHandler fuel fileOrDirectory s)
  show ?case
  proof (cases "fs_stat fs fileOrDirectory")
    case (Inl e)
    with "2.prems" show ?thesis by simp
  next
    case (Inr st)
    let ?s1 = "s\<lparr>checkedFilesSync := checkedFilesSync s @ [fileOrDirectory],
                   checkedStatsSync := checkedStatsSync s @ [st]\<rparr>"
    show ?thesis
    proof (cases "fileHandler (Entry fileOrDirectory st) (upperSync ?s1)")
      case (Threw e u)
      with Inr "2.prems" show ?thesis by simp
    next
      case (Returned u)
      show ?thesis
      proof (cases "isDirectory st")
        case False
        with Inr Returned "2.prems" show ?thesis by simp
      next
        case True
        with Inr Returned "2.prems"
        have "onDirectorySync fs fileHandler fuel fileOrDirectory (?s1\<lparr>upperSync := u\<rparr>) = Some r"
          by (simp add: Let_def)
        from "2.IH" [OF Inr refl Returned True this] Inr Returned True show ?thesis
          by (simp add: Let_def)
      qed
    qed
  qed
next
  case (3 fs fileHandler fuel dir s)
  show ?case
  proof (cases "fs_readdir fs dir")
    case (Inl e)
    with "3.prems" show ?thesis by simp
  next
    case (Inr names)
    with "3.prems" have "forEachSync fs fileHandler fuel dir names s = Some r"
      by simp
    from "3.IH" [OF Inr this] Inr show ?thesis by simp
  qed
next
  case (4 fs fileHandler fuel dir s)
  then show ?case by simp
next
  case (5 fs fileHandler fuel dir name rest s)
  show ?case
  proof (cases "onFileOrDirectorySync fs fileHandler fuel (fullFilePath dir name) s")
    case None
    with "5.prems" show ?thesis by simp
  next
    case (Some r1)
    note d = "5.IH"(1) [OF Some]
    show ?thesis
    proof (cases r1)
      case (Threw e s1)
      with Some "5.prems" have "r = Threw e s1" by simp
      with d Threw show ?thesis by simp
    next
      case (Returned s1)
      with Some "5.prems" have "forEachSync fs fileHandler fuel dir rest s1 = Some r"
        by simp
      from "5.IH"(2) [OF Some Returned this] d Returned show ?thesis by simp
    qed
  qed
qed

lemma walk_result_unique:
  assumes "eachFileOrDirectorySync fs root fh n u = Some r"
    and "eachFileOrDirectorySync fs root fh m u = Some r'"
  shows "r' = r"
proof -
  from deeper_walk(1) [OF assms(1) [unfolded eachFileOrDirectorySync_def], of m]
       deeper_walk(1) [OF assms(2) [unfolded eachFileOrDirectorySync_def], of n]
  show ?thesis by (simp add: add.commute)
qed

lemma healthy_tree_returns:
  assumes "healthy fs (if root = [] then ''./'' else root)"
    and "level fs (if root = [] then ''./'' else root) depth = {}"
  shows "\<exists>ss. eachFileOrDirectorySync fs root log_entry_sync depth [] = Some (Returned ss)"
  unfolding eachFileOrDirectorySync_def
  using assms by (intro healthy_walk_returns) (simp_all add: log_entry_sync_def)

text \<open>
  On such a tree every pending operation of the engine can be worked off, whatever else is
  pending: whatever results have arrived so far, the session can go on until nothing is
  pending.
\<close>

lemma level_add: "level fs p (m + n) = (\<Union>q \<in> level fs p m. level fs q n)"
  by (auto simp: level_def relpow_add)

lemma reachable_level: "q \<in> reachable fs p \<Longrightarrow> \<exists>k. q \<in> level fs p k"
  by (auto simp: reachable_def level_def dest: rtrancl_imp_relpow)

lemma level_empty_below:
  assumes "level fs p n = {}" and "q \<in> reachable fs p"
  shows "level fs q n = {}"
proof -
  from assms(2) obtain k where k: "q \<in> level fs p k"
    by (blast dest: reachable_level)
  from assms(1) have "level fs p (n + k) = {}"
    by (simp add: level_add)
  then have "level fs p (k + n) = {}"
    by (simp add: add.commute)
  with k show ?thesis
    by (auto simp: level_add)
qed

lemma healthy_below:
  assumes "healthy fs p" and "q \<in> reachable fs p"
  shows "healthy fs q"
proof -
  have "reachable fs q \<subseteq> reachable fs p"
    using assms(2) by (auto simp: reachable_def)
  with assms(1) show ?thesis by (auto simp: healthy_def)
qed

lemma healthy_listing_returns:
  assumes fh: "\<And>arg u. \<exists>u'. fh arg u = Returned u'"
    and h: "healthy fs p" and d: "is_dir fs p" and l: "level fs p (Suc n) = {}"
  shows "\<exists>s'. onDirectorySync fs fh n p s = Some (Returned s')"
proof -
  from d obtain st where st: "fs_stat fs p = Inr st" and dir: "isDirectory st"
    by (auto simp: is_dir_def)
  from h reachable_self [of p fs] have "probes_ok fs p"
    by (simp add: healthy_def)
  with st dir obtain names where names: "fs_readdir fs p = Inr names"
    by (auto simp: probes_ok_def)
  have kids: "child_rel fs `` {p} = fullFilePath p ` set names"
    using st dir names by (rule children_dir)
  have "\<exists>s'. onFileOrDirectorySync fs fh n (fullFilePath p name) s0 = Some (Returned s')"
    if "name \<in> set names" for name s0
  proof (rule healthy_walk_returns [OF fh])
    from that kids have c: "(p, fullFilePath p name) \<in> child_rel fs"
      by auto
    with h show "healthy fs (fullFilePath p name)"
      by (rule healthy_child)
    from l c show "level fs (fullFilePath p name) n = {}"
      by (auto simp: level_Suc)
  qed
  then have "\<exists>s'. forEachSync fs fh n p names s = Some (Returned s')"
    by (rule forEachSync_returns)
  with names show ?thesis by simp
qed

lemma task_can_finish:
  assumes h: "healthy fs root" and l: "level fs root depth = {}"
    and t: "task_ok fs root t" and p: "pending c = front @ t # behind"
  shows "\<exists>sched. pending (run fs fh ch sched c) = front @ behind"
proof (cases t)
  case (StatTask q)
  with t have r: "q \<in> reachable fs root" by simp
  from h r have "healthy fs q" by (rule healthy_below)
  moreover from l r have "level fs q depth = {}" by (rule level_empty_below)
  ultimately obtain s' where
    "onFileOrDirectorySync fs (\<lambda>arg u. Returned u) depth q
       \<lparr>checkedFilesSync = [], checkedStatsSync = [], upperSync = ()\<rparr> = Some (Returned s')"
    using healthy_walk_returns [where fh = "\<lambda>arg (u :: unit). Returned u" and fs = fs and p = q
        and n = depth]
    by blast
  from depth_first_schedule(1) [OF this, of fh ch] p StatTask show ?thesis
    by blast
next
  case (ReaddirTask q)
  with t have r: "q \<in> reachable fs root" and d: "is_dir fs q" by simp_all
  from h r have hq: "healthy fs q" by (rule healthy_below)
  from l r have lq: "level fs q depth = {}" by (rule level_empty_below)
  then obtain n where n: "depth = Suc n"
    by (cases depth) (simp_all add: level_0)
  from hq d lq [unfolded n] obtain s' where
    "onDirectorySync fs (\<lambda>arg u. Returned u) n q
       \<lparr>checkedFilesSync = [], checkedStatsSync = [], upperSync = ()\<rparr> = Some (Returned s')"
    using healthy_listing_returns [where fh = "\<lambda>arg (u :: unit). Returned u" and fs = fs and p = q
        and n = n]
    by blast
  from depth_first_schedule(2) [OF this, of fh ch] p ReaddirTask show ?thesis
    by blast
qed

lemma pending_can_finish:
  assumes h: "healthy fs root" and l: "level fs root depth = {}"
  shows "pending c = ts \<Longrightarrow> \<forall>t \<in> set ts. task_ok fs root t \<Longrightarrow>
         \<exists>sched. pending (run fs fh ch sched c) = []"
proof (induction ts arbitrary: c)
  case Nil
  then have "pending (run fs fh ch [] c) = []" by simp
  then show ?case ..
next
  case (Cons t ts)
  from Cons.prems have "task_ok fs root t" and "pending c = [] @ t # ts"
    by simp_all
  with h l obtain sched1 where s1: "pending (run fs fh ch sched1 c) = [] @ ts"
    by (blast dest: task_can_finish)
  with Cons.IH [of "run fs fh ch sched1 c"] Cons.prems(2) obtain sched2 where
    "pending (run fs fh ch sched2 (run fs fh ch sched1 c)) = []"
    by auto
  then have "pending (run fs fh ch (sched1 @ sched2) c) = []"
    by (simp add: run_append)
  then show ?case ..
qed

lemma session_can_finish:
  assumes h: "healthy fs (if root = [] then ''./'' else root)"
    and l: "level fs (if root = [] then ''./'' else root) depth = {}"
  shows "\<exists>more. pending (eachFileOrDirectory fs root fh ch (sched @ more) u) = []"
proof -
  let ?root = "if root = [] then ''./'' else root"
  let ?c = "eachFileOrDirectory fs root fh ch sched u"
  have "covered fs ?root (pending ?c) (checkedFiles ?c)"
    unfolding eachFileOrDirectory_def eachFileOrDirectory_start_def
    using h by (intro covered_run covered_start)
  then have "\<forall>t \<in> set (pending ?c). task_ok fs ?root t"
    by (simp add: covered_def)
  with pending_can_finish [OF h l refl, of ?c fh ch] obtain more where
    "pending (run fs fh ch more ?c) = []"
    by blast
  then have "pending (eachFileOrDirectory fs root fh ch (sched @ more) u) = []"
    by (simp add: eachFileOrDirectory_def run_append)
  then show ?thesis ..
qed

text \<open>
  C6: take a tree on which no probe and no listing fails; as a tree it has finitely many
  levels, fewer than \<open>depth\<close>. The sequential traversal returns on it, within the nesting
  \<open>depth\<close> and with the same result within every nesting that gives one; the concurrent
  traversal can finish, whatever results have arrived so far; and under every schedule that
  lets it finish the two traversals visit the same set of paths: the sets of paths handed to
  the per-entry handler are equal, and so are the sets of accumulated paths.
\<close>

theorem concurrent_visits_what_sequential_visits:
  assumes "healthy fs (if root = [] then ''./'' else root)"
    and "level fs (if root = [] then ''./'' else root) depth = {}"
  shows "\<exists>ss. eachFileOrDirectorySync fs root log_entry_sync depth [] = Some (Returned ss) \<and>
           (\<forall>fuel r. eachFileOrDirectorySync fs root log_entry_sync fuel [] = Some r \<longrightarrow>
              r = Returned ss) \<and>
           (\<forall>sched. \<exists>more.
              pending (eachFileOrDirectory fs root log_entry log_complete (sched @ more) []) = []) \<and>
           (\<forall>sched. pending (eachFileOrDirectory fs root log_entry log_complete sched []) = [] \<longrightarrow>
              set (visited (upper (eachFileOrDirectory fs root log_entry log_complete sched []))) =
                set (visited (upperSync ss)) \<and>
              set (checkedFiles (eachFileOrDirectory fs root log_entry log_complete sched [])) =
                set (checkedFilesSync ss))"
proof -
  from healthy_tree_returns [OF assms] obtain ss where
    ss: "eachFileOrDirectorySync fs root log_entry_sync depth [] = Some (Returned ss)"
    by blast
  have u: "r = Returned ss"
    if "eachFileOrDirectorySync fs root log_entry_sync fuel [] = Some r" for fuel r
    using ss that by (rule walk_result_unique)
  have f: "\<exists>more. pending (eachFileOrDirectory fs root log_entry log_complete (sched @ more) []) = []"
    for sched
    using assms by (rule session_can_finish)
  have v: "set (visited (upper (eachFileOrDirectory fs root log_entry log_complete sched []))) =
             set (visited (upperSync ss)) \<and>
           set (checkedFiles (eachFileOrDirectory fs root log_entry log_complete sched [])) =
             set (checkedFilesSync ss)"
    if q: "pending (eachFileOrDirectory fs root log_entry log_complete sched []) = []" for sched
  proof -
    from sync_returned_reachable [OF ss]
    have s: "set (checkedFilesSync ss) = reachable fs (if root = [] then ''./'' else root)"
      by simp
    from quiescent_visits_reachable [OF assms(1) q] s
    have c: "set (checkedFiles (eachFileOrDirectory fs root log_entry log_complete sched [])) =
               set (checkedFilesSync ss)"
      by simp
    from sync_session_visited [OF ss] have "visited (upperSync ss) = checkedFilesSync ss"
      by simp
    with c session_visited [of fs root sched] show ?thesis by simp
  qed
  from ss u f v show ?thesis by blast
qed

lemma tree_sync:
  "eachFileOrDirectorySync fs_tree ''root'' log_entry_sync 3 [] =
     Some (Returned
       \<lparr>checkedFilesSync =
          [''root'', ''root/a.txt'', ''root/sub'', ''root/sub/b.txt'', ''root/sub/c.log''],
        checkedStatsSync = [dir_stat, file_stat, dir_stat, file_stat, file_stat],
        upperSync =
          [Called (Entry ''root'' dir_stat), Called (Entry ''root/a.txt'' file_stat),
           Called (Entry ''root/sub'' dir_stat), Called (Entry ''root/sub/b.txt'' file_stat),
           Called (Entry ''root/sub/c.log'' file_stat)]\<rparr>)"
  by (simp add: eachFileOrDirectorySync_def numeral_3_eq_3 Let_def fs_tree_def fullFilePath_def
      log_entry_sync_def dir_stat_def file_stat_def)

lemma tree_fifo:
  "eachFileOrDirectory fs_tree ''root'' log_entry log_complete [0, 0, 0, 0, 0, 0, 0] [] =
     \<lparr>pending = [], filesToCheck = 0,
      checkedFiles =
        [''root'', ''root/a.txt'', ''root/sub'', ''root/sub/b.txt'', ''root/sub/c.log''],
      checkedStats = [dir_stat, file_stat, dir_stat, file_stat, file_stat],
      upper =
        [Called (Entry ''root'' dir_stat), Called (Entry ''root/a.txt'' file_stat),
         Called (Entry ''root/sub'' dir_stat), Called (Entry ''root/sub/b.txt'' file_stat),
         Called (Entry ''root/sub/c.log'' file_stat),
         Completed (Complete
           [''root'', ''root/a.txt'', ''root/sub'', ''root/sub/b.txt'', ''root/sub/c.log'']
           [dir_stat, file_stat, dir_stat, file_stat, file_stat])]\<rparr>"
  by (simp add: eachFileOrDirectory_def engine_defs fs_tree_def fullFilePath_def
      log_entry_def log_complete_def dir_stat_def file_stat_def)

lemma tree_children:
  "child_rel fs_tree `` {p} =
     (if p = ''root'' then {''root/a.txt'', ''root/sub''}
      else if p = ''root/sub'' then {''root/sub/b.txt'', ''root/sub/c.log''}
      else {})"
  by (auto simp: child_rel_def fs_tree_def fullFilePath_def dir_stat_def file_stat_def
      split: if_splits)

lemma tree_probes:
  "p \<in> {''root'', ''root/a.txt'', ''root/sub'', ''root/sub/b.txt'', ''root/sub/c.log''} \<Longrightarrow>
     probes_ok fs_tree p"
  by (auto simp: probes_ok_def fs_tree_def dir_stat_def file_stat_def)

lemma tree_below:
  "reachable fs_tree ''root'' \<subseteq>
     {''root'', ''root/a.txt'', ''root/sub'', ''root/sub/b.txt'', ''root/sub/c.log''}"
proof
  fix x assume "x \<in> reachable fs_tree ''root''"
  then have "(''root'', x) \<in> (child_rel fs_tree)\<^sup>*"
    by (simp add: reachable_def)
  then show "x \<in> {''root'', ''root/a.txt'', ''root/sub'', ''root/sub/b.txt'', ''root/sub/c.log''}"
  proof (induction rule: rtrancl_induct)
    case base
    then show ?case by simp
  next
    case (step y z)
    from step.hyps(2) have "z \<in> child_rel fs_tree `` {y}" by auto
    with step.IH show ?case
      by (auto simp: tree_children split: if_splits)
  qed
qed

lemma tree_healthy: "healthy fs_tree ''root''"
  unfolding healthy_def using tree_below tree_probes by blast

lemma tree_levels: "level fs_tree ''root'' 3 = {}"
  by (simp add: numeral_3_eq_3 level_Suc level_0 tree_children)

theorem concurrent_visits_what_sequential_visits_witness:
  "healthy fs_tree ''root'' \<and> level fs_tree ''root'' 3 = {} \<and>
   (\<exists>ss. eachFileOrDirectorySync fs_tree ''root'' log_entry_sync 3 [] = Some (Returned ss) \<and>
      pending (eachFileOrDirectory fs_tree ''root'' log_entry log_complete [0, 0, 0, 0, 0, 0, 0] [])
        = [] \<and>
      set (visited (upper (eachFileOrDirectory fs_tree ''root'' log_entry log_complete
         [0, 0, 0, 0, 0, 0, 0] []))) = set (visited (upperSync ss)))"
proof -
  have h: "healthy fs_tree (if ''root'' = [] then ''./'' else ''root'')"
    by (simp add: tree_healthy)
  have l: "level fs_tree (if ''root'' = [] then ''./'' else ''root'') 3 = {}"
    by (simp add: tree_levels)
  have p: "pending (eachFileOrDirectory fs_tree ''root'' log_entry log_complete
      [0, 0, 0, 0, 0, 0, 0] []) = []"
    by (simp add: tree_fifo)
  from concurrent_visits_what_sequential_visits [OF h l] p tree_healthy tree_levels
  show ?thesis by blast
qed

lemma tree_isDirectory:
  "fs_stat fs_tree p = Inr st \<Longrightarrow> isDirectory st \<longleftrightarrow> p = ''root'' \<or> p = ''root/sub''"
  by (auto simp: fs_tree_def dir_stat_def file_stat_def split: if_splits)

lemma tree_files_handler:
  assumes "valid_entry fs_tree arg" and "tree_files u1 u2"
  shows "tree_files (log_entry arg u1) (eachFile_handler log_entry arg u2)"
proof (cases arg)
  case (EntryErr e)
  with assms show ?thesis
    by (simp add: tree_files_def log_entry_def eachFile_handler_def visited_append)
next
  case (Entry p st)
  with assms(1) have "isDirectory st \<longleftrightarrow> p = ''root'' \<or> p = ''root/sub''"
    by (simp add: tree_isDirectory)
  with Entry assms(2) show ?thesis
    by (auto simp: tree_files_def log_entry_def eachFile_handler_def visited_append)
qed

lemma tree_files_complete:
  assumes "tree_files u1 u2"
  shows "tree_files (log_complete arg u1) (eachFile_complete log_complete arg u2)"
  using assms
  by (cases arg) (simp_all add: tree_files_def log_complete_def eachFile_complete_def visited_append)

lemma tree_reachable:
  "reachable fs_tree ''root'' =
     {''root'', ''root/a.txt'', ''root/sub'', ''root/sub/b.txt'', ''root/sub/c.log''} \<and>
   healthy fs_tree ''root''"
  using sync_returned_reachable [OF tree_sync] by auto

text \<open>
  C3, as stated: on the tree \<^verbatim>\<open>root/{a.txt, sub/{b.txt, c.log}}\<close> the callback of \<^verbatim>\<open>eachFile\<close>
  is invoked for four entries, \<^verbatim>\<open>sub\<close> among them. With the results arriving in the order
  of issue it is invoked for three entries, and not for the directory \<^verbatim>\<open>sub\<close>.
\<close>

theorem eachFile_skips_directories:
  "visited (outer (upper (eachFile fs_tree ''root'' log_entry log_complete
      [0, 0, 0, 0, 0, 0, 0] []))) = [''root/a.txt'', ''root/sub/b.txt'', ''root/sub/c.log''] \<and>
   ''root/sub'' \<notin> set (visited (outer (upper (eachFile fs_tree ''root'' log_entry log_complete
      [0, 0, 0, 0, 0, 0, 0] []))))"
  by (simp add: eachFile_def eachFileOrDirectory_def engine_defs layer_defs fs_tree_def
      fullFilePath_def log_entry_def log_complete_def dir_stat_def file_stat_def)

text \<open>
  C3, amended: on that tree, under every schedule that lets the traversal finish, the
  callback of \<^verbatim>\<open>eachFile\<close> is invoked for exactly the three entries that are not
  directories, \<^verbatim>\<open>root/a.txt\<close>, \<^verbatim>\<open>root/sub/b.txt\<close> and \<^verbatim>\<open>root/sub/c.log\<close>, in any order.
\<close>

theorem eachFile_visits_three_files:
  assumes "pending (eachFile fs_tree ''root'' log_entry log_complete sched []) = []"
  shows "set (visited (outer (upper (eachFile fs_tree ''root'' log_entry log_complete sched [])))) =
           {''root/a.txt'', ''root/sub/b.txt'', ''root/sub/c.log''}"
proof -
  let ?s1 = "eachFileOrDirectory fs_tree ''root'' log_entry log_complete sched []"
  let ?s2 = "eachFileOrDirectory fs_tree ''root'' (eachFile_handler log_entry)
               (eachFile_complete log_complete) sched (new_collector [])"
  have "tree_files [] (new_collector [])"
    by (simp add: tree_files_def new_collector_def)
  with session_rel [where R = tree_files and fs = fs_tree and ?fh1.0 = log_entry
      and ?fh2.0 = "eachFile_handler log_entry" and ?ch1.0 = log_complete
      and ?ch2.0 = "eachFile_complete log_complete" and ?u1.0 = "[]"
      and ?u2.0 = "new_collector []" and dir = "''root''" and sched = sched]
    tree_files_handler tree_files_complete
  have e: "engine_of ?s1 = engine_of ?s2" and r: "tree_files (upper ?s1) (upper ?s2)"
    by blast+
  from e assms have "pending ?s1 = []"
    by (simp add: engine_of_def eachFile_def)
  with quiescent_visits_reachable [of fs_tree "''root''" log_entry log_complete sched "[]"]
    tree_reachable
  have "set (checkedFiles ?s1) =
      {''root'', ''root/a.txt'', ''root/sub'', ''root/sub/b.txt'', ''root/sub/c.log''}"
    by simp
  with session_visited [of fs_tree "''root''" sched] r show ?thesis
    by (auto simp: tree_files_def eachFile_def)
qed

theorem eachFile_visits_three_files_witness:
  "pending (eachFile fs_tree ''root'' log_entry log_complete [0, 0, 0, 0, 0, 0, 0] []) = [] \<and>
   set (visited (outer (upper (eachFile fs_tree ''root'' log_entry log_complete
      [0, 0, 0, 0, 0, 0, 0] [])))) = {''root/a.txt'', ''root/sub/b.txt'', ''root/sub/c.log''}"
proof -
  have p: "pending (eachFile fs_tree ''root'' log_entry log_complete [0, 0, 0, 0, 0, 0, 0] []) = []"
    by (simp add: eachFile_def eachFileOrDirectory_def engine_defs layer_defs fs_tree_def
        fullFilePath_def log_entry_def log_complete_def dir_stat_def file_stat_def)
  from eachFile_visits_three_files [OF p] p show ?thesis by simp
qed

subsection \<open>A failure in sequential mode\<close>







text \<open>
  Conversely, where the handler always returns, a call that raises has met such a failure.
\<close>

lemma threw_walk:
  shows "onFileOrDirectorySync fs fh n p s = Some (Threw e s') \<Longrightarrow>
           \<forall>arg u. \<exists>u'. fh arg u = Returned u' \<Longrightarrow> raises fs fh n p s e s'"
    and "onDirectorySync fs fh n p s = Some (Threw e s') \<Longrightarrow>
           \<forall>arg u. \<exists>u'. fh arg u = Returned u' \<Longrightarrow>
           (fs_readdir fs p = Inl e \<and> s' = s) \<or>
           (\<exists>before name after s1. fs_readdir fs p = Inr (before @ name # after) \<and>
              forEachSync fs fh n p before s = Some (Returned s1) \<and>
              raises fs fh n (fullFilePath p name) s1 e s')"
    and "forEachSync fs fh n p names s = Some (Threw e s') \<Longrightarrow>
           \<forall>arg u. \<exists>u'. fh arg u = Returned u' \<Longrightarrow>
           (\<exists>before name after s1. names = before @ name # after \<and>
              forEachSync fs fh n p before s = Some (Returned s1) \<and>
              raises fs fh n (fullFilePath p name) s1 e s')"
proof (induction fs fh n p s and fs fh n p s and fs fh n p names s arbitrary: s' and s' and s'
    rule: onFileOrDirectorySync_onDirectorySync_forEachSync.induct)
  case (1 fs fileHandler fileOrDirectory s)
  then show ?case by simp
next
  case (2 fs fileHandler fuel fileOrDirectory s)
  show ?case
  proof (cases "fs_stat fs fileOrDirectory")
    case (Inl e')
    with "2.prems"(1) show ?thesis by (auto intro: raises.probe_fails)
  next
    case (Inr st)
    let ?s1 = "s\<lparr>checkedFilesSync := checkedFilesSync s @ [fileOrDirectory],
                   checkedStatsSync := checkedStatsSync s @ [st]\<rparr>"
    from "2.prems"(2) obtain u where
      h: "fileHandler (Entry fileOrDirectory st) (upperSync ?s1) = Returned u"
      by blast
    then have h': "fileHandler (Entry fileOrDirectory st) (upperSync s) = Returned u"
      by simp
    show ?thesis
    proof (cases "isDirectory st")
      case False
      with Inr h "2.prems"(1) show ?thesis by (simp add: Let_def)
    next
      case True
      with Inr h "2.prems"(1)
      have d: "onDirectorySync fs fileHandler fuel fileOrDirectory (?s1\<lparr>upperSync := u\<rparr>)
                 = Some (Threw e s')"
        by (simp add: Let_def)
      from "2.IH" [OF Inr refl h True d "2.prems"(2)]
      show ?thesis
      proof
        assume "fs_readdir fs fileOrDirectory = Inl e \<and> s' = ?s1\<lparr>upperSync := u\<rparr>"
        with raises.expand_fails [where fh = fileHandler and s = s and u = u and n = fuel,
            OF Inr True h'] show ?thesis by simp
      next
        assume "\<exists>before name after s1.
           fs_readdir fs fileOrDirectory = Inr (before @ name # after) \<and>
           forEachSync fs fileHandler fuel fileOrDirectory before (?s1\<lparr>upperSync := u\<rparr>)
             = Some (Returned s1) \<and>
           raises fs fileHandler fuel (fullFilePath fileOrDirectory name) s1 e s'"
        then obtain before name after s1 where
          "fs_readdir fs fileOrDirectory = Inr (before @ name # after)"
          "forEachSync fs fileHandler fuel fileOrDirectory before
             (s\<lparr>checkedFilesSync := checkedFilesSync s @ [fileOrDirectory],
                checkedStatsSync := checkedStatsSync s @ [st], upperSync := u\<rparr>)
             = Some (Returned s1)"
          "raises fs fileHandler fuel (fullFilePath fileOrDirectory name) s1 e s'"
          by auto
        with Inr True h' show ?thesis
          by (rule raises.below_fails [where fh = fileHandler and s = s and u = u])
      qed
    qed
  qed
next
  case (3 fs fileHandler fuel dir s)
  show ?case
  proof (cases "fs_readdir fs dir")
    case (Inl e')
    with "3.prems"(1) show ?thesis by simp
  next
    case (Inr names)
    with "3.prems"(1) have "forEachSync fs fileHandler fuel dir names s = Some (Threw e s')"
      by simp
    from "3.IH" [OF Inr this "3.prems"(2)] Inr show ?thesis by auto
  qed
next
  case (4 fs fileHandler fuel dir s)
  then show ?case by simp
next
  case (5 fs fileHandler fuel dir name rest s)
  show ?case
  proof (cases "onFileOrDirectorySync fs fileHandler fuel (fullFilePath dir name) s")
    case None
    with "5.prems" show ?thesis by simp
  next
    case (Some r1)
    show ?thesis
    proof (cases r1)
      case (Threw e1 s1)
      with Some "5.prems"(1) have "e1 = e" "s1 = s'" by simp_all
      with Some Threw "5.IH"(1) [of s'] "5.prems"(2)
      have "raises fs fileHandler fuel (fullFilePath dir name) s e s'"
        by simp
      then have "name # rest = [] @ name # rest \<and>
          forEachSync fs fileHandler fuel dir [] s = Some (Returned s) \<and>
          raises fs fileHandler fuel (fullFilePath dir name) s e s'"
        by simp
      then show ?thesis by blast
    next
      case (Returned s1)
      with Some "5.prems"(1) have "forEachSync fs fileHandler fuel dir rest s1 = Some (Threw e s')"
        by simp
      from "5.IH"(2) [OF Some Returned this "5.prems"(2)] obtain before name' after s2 where
        r: "rest = before @ name' # after" and
        b: "forEachSync fs fileHandler fuel dir before s1 = Some (Returned s2)" and
        x: "raises fs fileHandler fuel (fullFilePath dir name') s2 e s'"
        by blast
      from Some Returned b
      have "forEachSync fs fileHandler fuel dir (name # before) s = Some (Returned s2)"
        by simp
      with r x have "name # rest = (name # before) @ name' # after \<and>
          forEachSync fs fileHandler fuel dir (name # before) s = Some (Returned s2) \<and>
          raises fs fileHandler fuel (fullFilePath dir name') s2 e s'"
        by simp
      then show ?thesis by blast
    qed
  qed
qed

subsection \<open>When the completion handler is called\<close>

text \<open>
  In every session the completion handler is called at most once, only when nothing is
  pending, and no handler is called after it. When no operation fails and the traversal has
  finished, it has been called exactly once, with the accumulated lists. A session in which
  the completion handler is never called is one in which the last result is a failure.
\<close>

lemma completions_append: "completions (xs @ ys) = completions xs @ completions ys"
  by (induction xs rule: completions.induct) simp_all

lemma rest_count:
  assumes "i < length xs"
  shows "(int (length xs) - 1 + int k = 0) = (take i xs @ drop (Suc i) xs = [] \<and> k = 0)"
proof -
  define R where "R = take i xs @ drop (Suc i) xs"
  have "int (length R) = int (length xs) - 1"
    unfolding R_def using assms by simp
  then have "(int (length xs) - 1 + int k = 0) = (int (length R + k) = 0)"
    by simp
  also have "\<dots> = (R = [] \<and> k = 0)"
    by (simp del: of_nat_add)
  finally show ?thesis by (simp add: R_def)
qed

lemma rest_count0:
  assumes "i < length xs"
  shows "(int (length xs) - 1 = 0) = (take i xs @ drop (Suc i) xs = [])"
  using rest_count [OF assms, of 0] by simp

lemma completes_last_step:
  assumes "completes_last s"
  shows "completes_last (step fs log_entry log_complete i s)"
proof (cases "i < length (pending s)")
  case False
  with assms show ?thesis by (simp add: step_def)
next
  case True
  let ?rest = "take i (pending s) @ drop (Suc i) (pending s)"
  from True have ne: "pending s \<noteq> []" by auto
  with assms have c: "completions (upper s) = []" and k: "filesToCheck s = int (length (pending s))"
    by (auto simp: completes_last_def)
  from True have l: "int (length ?rest) = int (length (pending s)) - 1"
    by simp
  show ?thesis
  proof (cases "pending s ! i")
    case (StatTask p)
    show ?thesis
    proof (cases "fs_stat fs p")
      case (Inl e)
      with True StatTask c k l show ?thesis
        by (simp add: step_def callback_simps completes_last_def log_entry_def completions_append)
    next
      case (Inr st)
      show ?thesis
      proof (cases "isDirectory st")
        case d: True
        with True StatTask Inr c k l show ?thesis
          by (simp add: step_def callback_simps completes_last_def log_entry_def
              completions_append)
      next
        case f: False
        show ?thesis
        proof (cases "?rest = []")
          case e: True
          with f True StatTask Inr c k l show ?thesis
            by (simp add: step_def callback_simps completes_last_def log_entry_def
                log_complete_def completions_append)
        next
          case n: False
          then have "int (length (pending s)) - 1 \<noteq> 0" using rest_count0 [OF True] by simp
          with f True StatTask Inr c k l show ?thesis
            by (simp add: step_def callback_simps completes_last_def log_entry_def
                log_complete_def completions_append)
        qed
      qed
    qed
  next
    case (ReaddirTask p)
    show ?thesis
    proof (cases "fs_readdir fs p")
      case (Inl e)
      with True ReaddirTask c k l show ?thesis
        by (simp add: step_def callback_simps completes_last_def log_entry_def completions_append)
    next
      case (Inr names)
      show ?thesis
      proof (cases "?rest = [] \<and> names = []")
        case e: True
        with True ReaddirTask Inr c k l show ?thesis
          by (simp add: step_def callback_simps completes_last_def log_complete_def
              completions_append)
      next
        case n: False
        then have "int (length (pending s)) - 1 + int (length names) \<noteq> 0"
          using rest_count [OF True, of "length names"] by simp
        with True ReaddirTask Inr c k l show ?thesis
          by (simp add: step_def callback_simps completes_last_def log_complete_def
              completions_append)
      qed
    qed
  qed
qed

lemma completes_last_run:
  "completes_last s \<Longrightarrow> completes_last (run fs log_entry log_complete sched s)"
  by (induction sched arbitrary: s) (simp_all add: completes_last_step)

lemma completion_at_most_once:
  "filesToCheck (eachFileOrDirectory fs root log_entry log_complete sched []) =
     int (length (pending (eachFileOrDirectory fs root log_entry log_complete sched []))) \<and>
   length (completions (upper (eachFileOrDirectory fs root log_entry log_complete sched []))) \<le> 1 \<and>
   (completions (upper (eachFileOrDirectory fs root log_entry log_complete sched [])) = [] \<or>
    pending (eachFileOrDirectory fs root log_entry log_complete sched []) = [] \<and>
    (\<exists>evs a. upper (eachFileOrDirectory fs root log_entry log_complete sched []) =
       evs @ [Completed a] \<and> completions evs = []))"
proof -
  have "completes_last (eachFileOrDirectory_start root [])"
    by (simp add: completes_last_def eachFileOrDirectory_start_def onFileOrDirectory_def)
  then have "completes_last (eachFileOrDirectory fs root log_entry log_complete sched [])"
    unfolding eachFileOrDirectory_def by (rule completes_last_run)
  then show ?thesis
    by (auto simp: completes_last_def completions_append)
qed

lemma completes_once_step:
  assumes h: "healthy fs root" and c: "covered fs root (pending s) (checkedFiles s)"
    and o: "completes_once s"
  shows "completes_once (step fs log_entry log_complete i s)"
proof (cases "i < length (pending s)")
  case False
  with o show ?thesis by (simp add: step_def)
next
  case True
  let ?rest = "take i (pending s) @ drop (Suc i) (pending s)"
  from True have ne: "pending s \<noteq> []" by auto
  with o have e: "completions (upper s) = []" and k: "filesToCheck s = int (length (pending s))"
    by (auto simp: completes_once_def)
  from True have l: "int (length ?rest) = int (length (pending s)) - 1"
    by simp
  from True have "pending s ! i \<in> set (pending s)" by simp
  with c have ok: "task_ok fs root (pending s ! i)" by (simp add: covered_def)
  show ?thesis
  proof (cases "pending s ! i")
    case (StatTask p)
    with ok h obtain st where st: "fs_stat fs p = Inr st"
      by (auto simp: healthy_def probes_ok_def)
    show ?thesis
    proof (cases "isDirectory st")
      case d: True
      with True StatTask st e k l show ?thesis
        by (simp add: step_def callback_simps completes_once_def log_entry_def
            completions_append)
    next
      case f: False
      show ?thesis
      proof (cases "?rest = []")
        case r: True
        with f True StatTask st e k l show ?thesis
          by (simp add: step_def callback_simps completes_once_def log_entry_def
              log_complete_def completions_append)
      next
        case n: False
        then have "int (length (pending s)) - 1 \<noteq> 0" using rest_count0 [OF True] by simp
        with n f True StatTask st e k l show ?thesis
          by (simp add: step_def callback_simps completes_once_def log_entry_def
              log_complete_def completions_append)
      qed
    qed
  next
    case (ReaddirTask p)
    with ok h obtain names where n: "fs_readdir fs p = Inr names"
      by (auto simp: healthy_def probes_ok_def is_dir_def)
    show ?thesis
    proof (cases "?rest = [] \<and> names = []")
      case r: True
      with True ReaddirTask n e k l show ?thesis
        by (simp add: step_def callback_simps completes_once_def log_complete_def
            completions_append)
    next
      case m: False
      then have "int (length (pending s)) - 1 + int (length names) \<noteq> 0"
        using rest_count [OF True, of "length names"] by simp
      with m True ReaddirTask n e k l show ?thesis
        by (simp add: step_def callback_simps completes_once_def log_complete_def
            completions_append)
    qed
  qed
qed

lemma completes_once_run:
  assumes h: "healthy fs root"
  shows "covered fs root (pending s) (checkedFiles s) \<Longrightarrow> completes_once s \<Longrightarrow>
         completes_once (run fs log_entry log_complete sched s)"
proof (induction sched arbitrary: s)
  case Nil
  then show ?case by simp
next
  case (Cons i sched)
  from h Cons.prems(1)
  have "covered fs root (pending (step fs log_entry log_complete i s))
          (checkedFiles (step fs log_entry log_complete i s))"
    by (rule covered_step)
  moreover from h Cons.prems have "completes_once (step fs log_entry log_complete i s)"
    by (rule completes_once_step)
  ultimately show ?case by (simp add: Cons.IH)
qed

lemma completion_exactly_once_without_failure:
  assumes "healthy fs (if root = [] then ''./'' else root)"
    and "pending (eachFileOrDirectory fs root log_entry log_complete sched []) = []"
  shows "completions (upper (eachFileOrDirectory fs root log_entry log_complete sched [])) =
           [Complete (checkedFiles (eachFileOrDirectory fs root log_entry log_complete sched []))
              (checkedStats (eachFileOrDirectory fs root log_entry log_complete sched []))]"
proof -
  let ?root = "if root = [] then ''./'' else root"
  let ?start = "eachFileOrDirectory_start root ([] :: event list)"
  have cov: "covered fs ?root (pending ?start) (checkedFiles ?start)"
    unfolding eachFileOrDirectory_start_def by (rule covered_start)
  have once: "completes_once ?start"
    by (simp add: completes_once_def eachFileOrDirectory_start_def onFileOrDirectory_def)
  have "completes_once (eachFileOrDirectory fs root log_entry log_complete sched [])"
    unfolding eachFileOrDirectory_def using assms(1) cov once by (rule completes_once_run)
  with assms(2) show ?thesis by (simp add: completes_once_def)
qed

end
